theory Spec2Isabelle
  imports Complex_Main "HOL-Library.Word"
begin

text \<open>
  The audio core of the tracker visualizer (\<^verbatim>\<open>src/components/TrackerVisualizer.jsx\<close>):
  the note mapper \<^verbatim>\<open>freqToNoteName\<close>, the band energies of the hex console, the
  WAV and MP3 encoders and the offline pattern renderer, as functions of HOL, with
  the properties of each proved after the definitions.
\<close>

section \<open>JavaScript numbers\<close>

text \<open>
  The program is JavaScript: every number is an IEEE double.  A finite value is
  the real number it stands for, beside NaN, the two infinities and the negative
  zero (\<open>Fin 0\<close> is the positive one).  Addition, multiplication, division,
  minimum, maximum and comparison are first given exactly, on these extended
  reals; an arithmetic operation of the program is the exact operation followed by
  the rounding of the result to the nearest double (\<open>round_double\<close> below).  The
  note mapper and the renderer, whose results depend on the last bit, use the rounded
  operations.  The products of the WAV encoder need no rounding (a clamped
  single-precision sample times \<open>0x7fff\<close> or \<open>0x8000\<close> is a double), and the band
  energies are stated on the exact quotient.

  The negative zero is kept where an argument is one.  The sign of a zero that an
  operation computes from other values (\<open>-1 * 0\<close>, \<open>60 / -Infinity\<close>, a negative
  result that underflows) is not kept, the result is \<open>Fin 0\<close>: the program divides
  by its arguments only, never by a value it computed, so nothing it returns
  depends on that sign.
\<close>

datatype jsnum = NaN | PosInf | NegInf | NegZero | Fin real

datatype js_error = TypeError | RangeError | NotSupportedError

fun js_add :: "jsnum \<Rightarrow> jsnum \<Rightarrow> jsnum" where
  "js_add NaN _ = NaN"
| "js_add _ NaN = NaN"
| "js_add (Fin a) (Fin b) = Fin (a + b)"
| "js_add NegZero (Fin b) = Fin b"
| "js_add (Fin a) NegZero = Fin a"
| "js_add NegZero NegZero = NegZero"
| "js_add PosInf NegInf = NaN"
| "js_add NegInf PosInf = NaN"
| "js_add PosInf _ = PosInf"
| "js_add NegInf _ = NegInf"
| "js_add _ PosInf = PosInf"
| "js_add _ NegInf = NegInf"

fun js_mul :: "jsnum \<Rightarrow> jsnum \<Rightarrow> jsnum" where
  "js_mul NaN _ = NaN"
| "js_mul _ NaN = NaN"
| "js_mul (Fin a) (Fin b) = Fin (a * b)"
| "js_mul NegZero (Fin b) = (if b < 0 then Fin 0 else NegZero)"
| "js_mul (Fin a) NegZero = (if a < 0 then Fin 0 else NegZero)"
| "js_mul NegZero NegZero = Fin 0"
| "js_mul PosInf PosInf = PosInf"
| "js_mul PosInf NegInf = NegInf"
| "js_mul NegInf PosInf = NegInf"
| "js_mul NegInf NegInf = PosInf"
| "js_mul PosInf (Fin b) = (if b = 0 then NaN else if 0 < b then PosInf else NegInf)"
| "js_mul NegInf (Fin b) = (if b = 0 then NaN else if 0 < b then NegInf else PosInf)"
| "js_mul (Fin a) PosInf = (if a = 0 then NaN else if 0 < a then PosInf else NegInf)"
| "js_mul (Fin a) NegInf = (if a = 0 then NaN else if 0 < a then NegInf else PosInf)"
| "js_mul _ _ = NaN"

text \<open>
  Division by a zero gives an infinity with the sign of the dividend, turned round
  when the zero is the negative one: \<^verbatim>\<open>60 / 0\<close> is \<^verbatim>\<open>Infinity\<close> and \<^verbatim>\<open>60 / -0\<close> is
  \<^verbatim>\<open>-Infinity\<close>.
\<close>

fun js_div :: "jsnum \<Rightarrow> jsnum \<Rightarrow> jsnum" where
  "js_div NaN _ = NaN"
| "js_div _ NaN = NaN"
| "js_div (Fin a) (Fin b) =
     (if b = 0 then (if a = 0 then NaN else if 0 < a then PosInf else NegInf)
      else Fin (a / b))"
| "js_div (Fin a) NegZero = (if a = 0 then NaN else if 0 < a then NegInf else PosInf)"
| "js_div NegZero (Fin b) = (if b = 0 then NaN else if b < 0 then Fin 0 else NegZero)"
| "js_div NegZero NegZero = NaN"
| "js_div (Fin a) _ = Fin 0"
| "js_div NegZero PosInf = NegZero"
| "js_div NegZero NegInf = Fin 0"
| "js_div PosInf (Fin b) = (if b < 0 then NegInf else PosInf)"
| "js_div NegInf (Fin b) = (if b < 0 then PosInf else NegInf)"
| "js_div PosInf NegZero = NegInf"
| "js_div NegInf NegZero = PosInf"
| "js_div _ _ = NaN"

text \<open>\<^verbatim>\<open>Math.min(a, b)\<close>: NaN when either argument is NaN; the negative zero is below the positive one.\<close>

fun js_min :: "jsnum \<Rightarrow> jsnum \<Rightarrow> jsnum" where
  "js_min NaN _ = NaN"
| "js_min _ NaN = NaN"
| "js_min NegInf _ = NegInf"
| "js_min _ NegInf = NegInf"
| "js_min PosInf b = b"
| "js_min a PosInf = a"
| "js_min (Fin a) (Fin b) = Fin (min a b)"
| "js_min NegZero (Fin b) = (if b < 0 then Fin b else NegZero)"
| "js_min (Fin a) NegZero = (if a < 0 then Fin a else NegZero)"
| "js_min NegZero NegZero = NegZero"

fun js_ceil :: "jsnum \<Rightarrow> jsnum" where
  "js_ceil (Fin a) = Fin (of_int \<lceil>a\<rceil>)"
| "js_ceil a = a"

text \<open>\<^verbatim>\<open>Math.max(a, b)\<close> and the comparison \<^verbatim>\<open>a < b\<close> (false when either side is NaN).\<close>

fun js_max :: "jsnum \<Rightarrow> jsnum \<Rightarrow> jsnum" where
  "js_max NaN _ = NaN"
| "js_max _ NaN = NaN"
| "js_max PosInf _ = PosInf"
| "js_max _ PosInf = PosInf"
| "js_max NegInf b = b"
| "js_max a NegInf = a"
| "js_max (Fin a) (Fin b) = Fin (max a b)"
| "js_max NegZero (Fin b) = (if 0 \<le> b then Fin b else NegZero)"
| "js_max (Fin a) NegZero = (if 0 \<le> a then Fin a else NegZero)"
| "js_max NegZero NegZero = NegZero"

fun js_lt :: "jsnum \<Rightarrow> jsnum \<Rightarrow> bool" where
  "js_lt NaN _ = False"
| "js_lt _ NaN = False"
| "js_lt (Fin a) (Fin b) = (a < b)"
| "js_lt NegZero (Fin b) = (0 < b)"
| "js_lt (Fin a) NegZero = (a < 0)"
| "js_lt NegZero NegZero = False"
| "js_lt NegInf NegInf = False"
| "js_lt NegInf _ = True"
| "js_lt _ NegInf = False"
| "js_lt PosInf _ = False"
| "js_lt _ PosInf = True"

text \<open>
  \<^verbatim>\<open>Math.round\<close> (the nearest whole number, a tie going up), \<^verbatim>\<open>Math.floor\<close> and
  the remainder \<^verbatim>\<open>a % b\<close> of two numbers, which has the sign of the dividend.  All
  three are exact: their results are doubles.
\<close>

fun js_round :: "jsnum \<Rightarrow> jsnum" where
  "js_round (Fin a) = Fin (of_int \<lfloor>a + 1 / 2\<rfloor>)"
| "js_round a = a"

fun js_floor :: "jsnum \<Rightarrow> jsnum" where
  "js_floor (Fin a) = Fin (of_int \<lfloor>a\<rfloor>)"
| "js_floor a = a"

text \<open>
  Conversion of a number to an integer before it is stored in an integer slot:
  truncation towards zero, NaN and the infinities become 0.
\<close>

definition js_trunc :: "real \<Rightarrow> int" where
  "js_trunc r = (if r < 0 then \<lceil>r\<rceil> else \<lfloor>r\<rfloor>)"

definition to_integer :: "jsnum \<Rightarrow> int" where
  "to_integer x = (case x of Fin r \<Rightarrow> js_trunc r | _ \<Rightarrow> 0)"

fun js_remainder :: "jsnum \<Rightarrow> jsnum \<Rightarrow> jsnum" where
  "js_remainder (Fin a) (Fin b) =
     (if b = 0 then NaN else Fin (a - b * of_int (js_trunc (a / b))))"
| "js_remainder NegZero (Fin b) = (if b = 0 then NaN else NegZero)"
| "js_remainder (Fin a) PosInf = Fin a"
| "js_remainder (Fin a) NegInf = Fin a"
| "js_remainder NegZero PosInf = NegZero"
| "js_remainder NegZero NegInf = NegZero"
| "js_remainder _ _ = NaN"

text \<open>
  Rounding to the nearest double, ties to the even significand.  A double is a
  whole multiple of its unit in the last place, \<open>2\<close> to the power \<open>e - 52\<close> for a
  value of binary exponent \<open>e\<close> (the exponent of a subnormal value counts as
  \<open>-1022\<close>), with a multiplier below \<open>2^53\<close> in magnitude; a result of magnitude
  \<open>2^1024\<close> overflows to the infinity of its sign.
\<close>

definition round_even :: "real \<Rightarrow> int" where
  "round_even r =
     (let f = \<lfloor>r\<rfloor>; d = r - of_int f
      in if d < 1 / 2 then f else if 1 / 2 < d then f + 1 else if even f then f else f + 1)"

definition ulp :: "real \<Rightarrow> real" where
  "ulp x = 2 powr of_int (max \<lfloor>log 2 \<bar>x\<bar>\<rfloor> (- 1022) - 52)"

definition round_double :: "real \<Rightarrow> jsnum" where
  "round_double x =
     (if x = 0 then Fin 0
      else let y = of_int (round_even (x / ulp x)) * ulp x
           in if 2 ^ 1024 \<le> \<bar>y\<bar> then (if 0 < x then PosInf else NegInf) else Fin y)"

text \<open>The arithmetic of the program: \<^verbatim>\<open>a + b\<close>, \<^verbatim>\<open>a * b\<close> and \<^verbatim>\<open>a / b\<close> on doubles.\<close>

definition fl :: "jsnum \<Rightarrow> jsnum" where
  "fl v = (case v of Fin r \<Rightarrow> round_double r | _ \<Rightarrow> v)"

definition fl_add :: "jsnum \<Rightarrow> jsnum \<Rightarrow> jsnum" where
  "fl_add a b = fl (js_add a b)"

definition fl_mul :: "jsnum \<Rightarrow> jsnum \<Rightarrow> jsnum" where
  "fl_mul a b = fl (js_mul a b)"

definition fl_div :: "jsnum \<Rightarrow> jsnum \<Rightarrow> jsnum" where
  "fl_div a b = fl (js_div a b)"

text \<open>Exceptions are values: \<open>Inl\<close> carries the error, and a sequence stops at the first.\<close>

definition and_then :: "'e + 'a \<Rightarrow> ('a \<Rightarrow> 'e + 'b) \<Rightarrow> 'e + 'b" where
  "and_then r f = (case r of Inl e \<Rightarrow> Inl e | Inr v \<Rightarrow> f v)"

text \<open>
  The remainder operator \<^verbatim>\<open>%\<close> on integers: the result has the sign of the
  dividend (truncated division), unlike \<open>mod\<close> of HOL.
\<close>

definition js_rem :: "int \<Rightarrow> int \<Rightarrow> int" where
  "js_rem a b = sgn a * (\<bar>a\<bar> mod \<bar>b\<bar>)"

text \<open>
  Number-to-string conversion, as a template literal does it: the decimal digits
  of a whole number (of magnitude below \<open>10^21\<close>, as every finite number is that
  the program prints), and the names of the other values.
\<close>

definition digit_char :: "nat \<Rightarrow> char" where
  "digit_char d = ''0123456789'' ! d"

fun nat_to_string :: "nat \<Rightarrow> string" where
  "nat_to_string n =
     (if n < 10 then [digit_char n] else nat_to_string (n div 10) @ [digit_char (n mod 10)])"

declare nat_to_string.simps [simp del]

definition int_to_string :: "int \<Rightarrow> string" where
  "int_to_string i = (if i < 0 then CHR ''-'' # nat_to_string (nat (- i)) else nat_to_string (nat i))"

definition number_to_string :: "jsnum \<Rightarrow> string" where
  "number_to_string x =
     (case x of Fin r \<Rightarrow> int_to_string \<lfloor>r\<rfloor> | NegZero \<Rightarrow> ''0'' | NaN \<Rightarrow> ''NaN''
      | PosInf \<Rightarrow> ''Infinity'' | NegInf \<Rightarrow> ''-Infinity'')"

section \<open>Note names (\<^verbatim>\<open>freqToNoteName\<close>)\<close>

definition NOTE_NAMES :: "string list" where
  "NOTE_NAMES = [''C'', ''C#'', ''D'', ''D#'', ''E'', ''F'', ''F#'', ''G'', ''G#'', ''A'', ''A#'', ''B'']"

text \<open>The argument of \<^verbatim>\<open>freqToNoteName\<close>: a number, or \<^verbatim>\<open>undefined\<close>.\<close>

datatype js_value = Undefined | Num jsnum

text \<open>
  \<^verbatim>\<open>NOTE_NAMES[i]\<close>: an index outside the array (a negative remainder) reads
  \<^verbatim>\<open>undefined\<close>, which the template literal prints as the word itself.  So does
  an index that is not a whole number.
\<close>

definition note_at :: "int \<Rightarrow> string option" where
  "note_at i = (if 0 \<le> i \<and> i < int (length NOTE_NAMES) then Some (NOTE_NAMES ! nat i) else None)"

definition note_at_num :: "jsnum \<Rightarrow> string option" where
  "note_at_num x =
     (case x of Fin r \<Rightarrow> if of_int \<lfloor>r\<rfloor> = r then note_at \<lfloor>r\<rfloor> else None
      | NegZero \<Rightarrow> note_at 0 | _ \<Rightarrow> None)"

definition template_note :: "string option \<Rightarrow> string" where
  "template_note n = (case n of None \<Rightarrow> ''undefined'' | Some s \<Rightarrow> s)"

text \<open>
  \<^verbatim>\<open>Math.log2\<close> is the one operation of the mapper that the language leaves to
  the platform (an implementation-approximated value).  It is a parameter of the
  model: any function that is exact at the powers of two a double can hold, and
  whose values stay within the range the logarithm of a positive double has.
\<close>

typedef log2_impl =
  "{f :: real \<Rightarrow> real.
      (\<forall>k::int. - 1074 \<le> k \<and> k \<le> 1023 \<longrightarrow> f (2 powr of_int k) = of_int k) \<and>
      (\<forall>x. \<bar>f x\<bar> \<le> 1075)}"
proof
  show "(\<lambda>x. max (- 1075) (min 1075 (log 2 x))) \<in>
        {f :: real \<Rightarrow> real.
           (\<forall>k::int. - 1074 \<le> k \<and> k \<le> 1023 \<longrightarrow> f (2 powr of_int k) = of_int k) \<and>
           (\<forall>x. \<bar>f x\<bar> \<le> 1075)}"
    by auto
qed

definition js_log2 :: "log2_impl \<Rightarrow> jsnum \<Rightarrow> jsnum" where
  "js_log2 impl x =
     (case x of
        Fin r \<Rightarrow> if r < 0 then NaN else if r = 0 then NegInf else Fin (Rep_log2_impl impl r)
      | NegZero \<Rightarrow> NegInf | PosInf \<Rightarrow> PosInf | NegInf \<Rightarrow> NaN | NaN \<Rightarrow> NaN)"

text \<open>An implementation to run the mapper with: the exact logarithm, kept within the range.\<close>

definition exact_log2 :: log2_impl where
  "exact_log2 = Abs_log2_impl (\<lambda>x. max (- 1075) (min 1075 (log 2 x)))"

text \<open>
  \<^verbatim>\<open>semitones = Math.round(12 * Math.log2(freq / A4))\<close> and
  \<^verbatim>\<open>midi = 69 + semitones\<close>, then the letter \<^verbatim>\<open>NOTE_NAMES[midi % 12]\<close> and the
  octave \<^verbatim>\<open>Math.floor(midi / 12) - 1\<close>.
\<close>

definition semitones_of :: "log2_impl \<Rightarrow> jsnum \<Rightarrow> jsnum" where
  "semitones_of impl freq = js_round (fl_mul (Fin 12) (js_log2 impl (fl_div freq (Fin 440))))"

definition midi_of :: "log2_impl \<Rightarrow> jsnum \<Rightarrow> jsnum" where
  "midi_of impl freq = fl_add (Fin 69) (semitones_of impl freq)"

definition note_name :: "log2_impl \<Rightarrow> jsnum \<Rightarrow> string" where
  "note_name impl freq =
     (let semitones = js_round (fl_mul (Fin 12) (js_log2 impl (fl_div freq (Fin 440))));
          midi = fl_add (Fin 69) semitones;
          note = note_at_num (js_remainder midi (Fin 12));
          octave = fl_add (js_floor (fl_div midi (Fin 12))) (Fin (- 1))
      in template_note note @ number_to_string octave)"

text \<open>
  \<^verbatim>\<open>if (!freq || freq <= 0) return "--"\<close>: \<^verbatim>\<open>undefined\<close>, NaN and the two zeros
  are falsy.  At \<^verbatim>\<open>Infinity\<close> the MIDI number is infinite, its remainder is NaN and
  the lookup reads \<^verbatim>\<open>undefined\<close>.
\<close>

fun freqToNoteName :: "log2_impl \<Rightarrow> js_value \<Rightarrow> string" where
  "freqToNoteName impl Undefined = ''--''"
| "freqToNoteName impl (Num NaN) = ''--''"
| "freqToNoteName impl (Num NegZero) = ''--''"
| "freqToNoteName impl (Num NegInf) = ''--''"
| "freqToNoteName impl (Num PosInf) = note_name impl PosInf"
| "freqToNoteName impl (Num (Fin freq)) =
     (if freq = 0 \<or> freq \<le> 0 then ''--'' else note_name impl (Fin freq))"

text \<open>
  The mapper as the specification words it: the letter is looked up at the
  semitone offset modulo 12.
\<close>

definition spec_frequencyToNote :: "real \<Rightarrow> string" where
  "spec_frequencyToNote freq =
     (let offset = round (12 * log 2 (freq / 440));
          midi = 69 + offset
      in NOTE_NAMES ! nat (offset mod 12) @ int_to_string (\<lfloor>real_of_int midi / 12\<rfloor> - 1))"

text \<open>A chromatic note name followed by an octave number.\<close>

definition is_note_name :: "string \<Rightarrow> bool" where
  "is_note_name s = (\<exists>n oct. n \<in> set NOTE_NAMES \<and> s = n @ int_to_string oct)"

section \<open>Band energy (\<^verbatim>\<open>HexConsoleVisualizer\<close>)\<close>

text \<open>
  \<^verbatim>\<open>for (let i = start; i < end && i < arr.length; i++) sum += arr[i]\<close> over a
  \<^verbatim>\<open>Uint8Array\<close>.
\<close>

function energy_loop :: "8 word list \<Rightarrow> nat \<Rightarrow> nat \<Rightarrow> nat \<Rightarrow> nat" where
  "energy_loop arr stop i s =
     (if i < stop \<and> i < length arr then energy_loop arr stop (i + 1) (s + unat (arr ! i))
      else s)"
  by pat_completeness auto
termination
  by (relation "measure (\<lambda>(arr, stop, i, s). stop - i)") auto

declare energy_loop.simps [simp del]

definition energy :: "8 word list \<Rightarrow> nat \<times> nat \<Rightarrow> jsnum" where
  "energy arr r =
     (case r of (start, stop) \<Rightarrow>
        js_div (Fin (real (energy_loop arr stop start 0))) (Fin (real stop - real start)))"

definition BASS :: "nat \<times> nat" where "BASS = (0, 64)"
definition MID :: "nat \<times> nat" where "MID = (65, 256)"
definition HIGH :: "nat \<times> nat" where "HIGH = (257, 1024)"

definition bands :: "(string \<times> (nat \<times> nat)) list" where
  "bands = [(''BASS'', BASS), (''MID'', MID), (''HIGH'', HIGH)]"

definition bandData :: "8 word list \<Rightarrow> (string \<times> jsnum) list" where
  "bandData arr = map (\<lambda>(name, rng). (name, energy arr rng)) bands"

text \<open>
  A magnitude array whose energy sits in bins 0 to 10 only, each at the largest byte
  value: the input of the band-energy test of the specification.
\<close>

definition low_bins_input :: "8 word list" where
  "low_bins_input = replicate 11 255 @ replicate 1013 0"

section \<open>Audio buffers and the WAV encoder (\<^verbatim>\<open>audioBufferToWav\<close>)\<close>

text \<open>
  An \<^verbatim>\<open>AudioBuffer\<close>: its sample rate (a whole number of hertz: the renderer
  always uses 44100), its length in sample frames and one array of samples per
  channel.  \<^verbatim>\<open>numberOfChannels\<close> is the number of arrays.
\<close>

record audio_buffer =
  sampleRate :: nat
  frames :: nat
  channelData :: "jsnum list list"

definition numberOfChannels :: "audio_buffer \<Rightarrow> nat" where
  "numberOfChannels b = length (channelData b)"

text \<open>The platform keeps every channel of a buffer at the buffer's length.\<close>

definition valid_buffer :: "audio_buffer \<Rightarrow> bool" where
  "valid_buffer b = list_all (\<lambda>d. length d = frames b) (channelData b)"

text \<open>
  \<^verbatim>\<open>buffer.getChannelData(ch)[i]\<close> for a channel of the buffer; an index past the
  array reads \<^verbatim>\<open>undefined\<close>, which a \<^verbatim>\<open>Float32Array\<close> stores as NaN.
\<close>

definition channel_sample :: "audio_buffer \<Rightarrow> nat \<Rightarrow> nat \<Rightarrow> jsnum" where
  "channel_sample b ch i =
     (let d = channelData b ! ch in if i < length d then d ! i else NaN)"

text \<open>The interleaving loops: frames outside, channels inside.\<close>

definition interleaved :: "audio_buffer \<Rightarrow> jsnum list" where
  "interleaved b =
     concat (map (\<lambda>i. map (\<lambda>ch. channel_sample b ch i) [0..<numberOfChannels b]) [0..<frames b])"

text \<open>
  A \<^verbatim>\<open>DataView\<close> over an \<^verbatim>\<open>ArrayBuffer\<close> is the list of its bytes.  Every setter
  checks the whole range it writes and throws \<^verbatim>\<open>RangeError\<close> outside; the
  multi-byte setters are called little-endian, and keep the low bits of the value.
\<close>

type_synonym data_view = "8 word list"

definition setUint8 :: "data_view \<Rightarrow> nat \<Rightarrow> nat \<Rightarrow> js_error + data_view" where
  "setUint8 view off v =
     (if off + 1 \<le> length view then Inr (view[off := of_nat v]) else Inl RangeError)"

definition setUint16 :: "data_view \<Rightarrow> nat \<Rightarrow> nat \<Rightarrow> js_error + data_view" where
  "setUint16 view off v =
     (if off + 2 \<le> length view
      then Inr (view[off := of_nat v, off + 1 := of_nat (v div 256)])
      else Inl RangeError)"

definition setUint32 :: "data_view \<Rightarrow> nat \<Rightarrow> nat \<Rightarrow> js_error + data_view" where
  "setUint32 view off v =
     (if off + 4 \<le> length view
      then Inr (view[off := of_nat v, off + 1 := of_nat (v div 256),
                     off + 2 := of_nat (v div 65536), off + 3 := of_nat (v div 16777216)])
      else Inl RangeError)"

definition setInt16 :: "data_view \<Rightarrow> nat \<Rightarrow> jsnum \<Rightarrow> js_error + data_view" where
  "setInt16 view off x =
     (if off + 2 \<le> length view
      then let t = to_integer x in Inr (view[off := of_int t, off + 1 := of_int (t div 256)])
      else Inl RangeError)"

fun writeString :: "data_view \<Rightarrow> nat \<Rightarrow> string \<Rightarrow> js_error + data_view" where
  "writeString view offset [] = Inr view"
| "writeString view offset (c # cs) =
     and_then (setUint8 view offset (of_char c)) (\<lambda>view. writeString view (offset + 1) cs)"

declare writeString.simps [simp del]

text \<open>
  The header block: \<^verbatim>\<open>format = 1\<close>, \<^verbatim>\<open>bitDepth = 16\<close>,
  \<^verbatim>\<open>bytesPerSample = 2\<close>, \<^verbatim>\<open>blockAlign = numOfChan * 2\<close>; \<open>n\<close> is
  \<^verbatim>\<open>interleaved.length\<close>.
\<close>

definition write_header :: "data_view \<Rightarrow> nat \<Rightarrow> nat \<Rightarrow> nat \<Rightarrow> js_error + data_view" where
  "write_header view numOfChan rate n =
     and_then (writeString view 0 ''RIFF'') (\<lambda>view.
     and_then (setUint32 view 4 (36 + n * 2)) (\<lambda>view.
     and_then (writeString view 8 ''WAVE'') (\<lambda>view.
     and_then (writeString view 12 ''fmt '') (\<lambda>view.
     and_then (setUint32 view 16 16) (\<lambda>view.
     and_then (setUint16 view 20 1) (\<lambda>view.
     and_then (setUint16 view 22 numOfChan) (\<lambda>view.
     and_then (setUint32 view 24 rate) (\<lambda>view.
     and_then (setUint32 view 28 (rate * (numOfChan * 2))) (\<lambda>view.
     and_then (setUint16 view 32 (numOfChan * 2)) (\<lambda>view.
     and_then (setUint16 view 34 16) (\<lambda>view.
     and_then (writeString view 36 ''data'') (\<lambda>view.
     setUint32 view 40 (n * 2)))))))))))))"

text \<open>
  One sample: \<^verbatim>\<open>s = Math.max(-1, Math.min(1, x))\<close>, then
  \<^verbatim>\<open>s < 0 ? s * 0x8000 : s * 0x7fff\<close>.
\<close>

definition sample_to_pcm :: "jsnum \<Rightarrow> jsnum" where
  "sample_to_pcm x =
     (let s = js_max (Fin (- 1)) (js_min (Fin 1) x)
      in if js_lt s (Fin 0) then js_mul s (Fin 32768) else js_mul s (Fin 32767))"

fun write_samples :: "data_view \<Rightarrow> nat \<Rightarrow> jsnum list \<Rightarrow> js_error + data_view" where
  "write_samples view offset [] = Inr view"
| "write_samples view offset (x # xs) =
     and_then (setInt16 view offset (sample_to_pcm x))
       (\<lambda>view. write_samples view (offset + 2) xs)"

definition audioBufferToWav :: "audio_buffer \<Rightarrow> js_error + 8 word list" where
  "audioBufferToWav buffer =
     (let numOfChan = numberOfChannels buffer;
          samples = interleaved buffer;
          bufferLength = 44 + length samples * 2;
          view = replicate bufferLength 0
      in and_then (write_header view numOfChan (sampleRate buffer) (length samples))
           (\<lambda>view. write_samples view 44 samples))"

text \<open>What a WAV reader does with the bytes: little-endian fields.\<close>

definition read_u16 :: "8 word list \<Rightarrow> nat \<Rightarrow> nat" where
  "read_u16 bs off = unat (bs ! off) + 256 * unat (bs ! (off + 1))"

definition read_u32 :: "8 word list \<Rightarrow> nat \<Rightarrow> nat" where
  "read_u32 bs off =
     unat (bs ! off) + 256 * unat (bs ! (off + 1)) + 65536 * unat (bs ! (off + 2)) +
     16777216 * unat (bs ! (off + 3))"

definition read_i16 :: "8 word list \<Rightarrow> nat \<Rightarrow> int" where
  "read_i16 bs off =
     (let u = int (read_u16 bs off) in if u < 32768 then u else u - 65536)"

definition read_tag :: "8 word list \<Rightarrow> nat \<Rightarrow> 8 word list" where
  "read_tag bs off = [bs ! off, bs ! (off + 1), bs ! (off + 2), bs ! (off + 3)]"

text \<open>The two bytes of a 16-bit two's-complement sample, low byte first.\<close>

definition int16_le :: "int \<Rightarrow> 8 word list" where
  "int16_le t = [of_int t, of_int (t div 256)]"

text \<open>The data sub-chunk a list of samples encodes to.\<close>

definition pcm_bytes :: "jsnum list \<Rightarrow> 8 word list" where
  "pcm_bytes xs = concat (map (\<lambda>x. int16_le (to_integer (sample_to_pcm x))) xs)"

text \<open>Little-endian fields and four-character tags of the canonical header.\<close>

definition u16_le :: "nat \<Rightarrow> 8 word list" where
  "u16_le v = [of_nat v, of_nat (v div 256)]"

definition u32_le :: "nat \<Rightarrow> 8 word list" where
  "u32_le v = [of_nat v, of_nat (v div 256), of_nat (v div 65536), of_nat (v div 16777216)]"

definition tag_bytes :: "string \<Rightarrow> 8 word list" where
  "tag_bytes s = map (\<lambda>c. of_nat (of_char c)) s"

text \<open>The 44 header bytes, field by field.\<close>

definition wav_header :: "nat \<Rightarrow> nat \<Rightarrow> nat \<Rightarrow> 8 word list" where
  "wav_header numOfChan rate n =
     tag_bytes ''RIFF'' @ u32_le (36 + n * 2) @ tag_bytes ''WAVE'' @
     tag_bytes ''fmt '' @ u32_le 16 @ u16_le 1 @ u16_le numOfChan @ u32_le rate @
     u32_le (rate * (numOfChan * 2)) @ u16_le (numOfChan * 2) @ u16_le 16 @
     tag_bytes ''data'' @ u32_le (n * 2)"

text \<open>A two-frame stereo buffer with samples inside and outside the range.\<close>

definition wav_example :: audio_buffer where
  "wav_example = \<lparr>sampleRate = 44100, frames = 2,
     channelData = [[Fin (1 / 2), Fin (- 2)], [Fin 1, Fin (- 1 / 4)]]\<rparr>"

section \<open>The MP3 encoder (\<^verbatim>\<open>wavBlobToMp3Blob\<close>)\<close>

text \<open>
  The perceptual codec is the external library \<^verbatim>\<open>lamejs\<close>.  It is a parameter of
  the model: an encoder object has a state, the two-channel and the one-channel form
  of \<^verbatim>\<open>encodeBuffer\<close> and \<^verbatim>\<open>flush\<close> return the bytes they emit and the next
  state.  \<^verbatim>\<open>newEncoder\<close> is \<^verbatim>\<open>new lamejs.Mp3Encoder(channels, sampleRate, kbps)\<close>.
\<close>

record 's mp3_codec =
  newEncoder :: "nat \<Rightarrow> nat \<Rightarrow> nat \<Rightarrow> 's"
  encodeBuffer2 :: "'s \<Rightarrow> 16 word list \<Rightarrow> 16 word list \<Rightarrow> 8 word list \<times> 's"
  encodeBuffer1 :: "'s \<Rightarrow> 16 word list \<Rightarrow> 8 word list \<times> 's"
  flush :: "'s \<Rightarrow> 8 word list \<times> 's"

text \<open>The calls made on the encoder object, recorded in the order they are made.\<close>

datatype codec_call =
  EncodeStereo "16 word list" "16 word list" | EncodeMono "16 word list" | Flush

text \<open>The checked getters of a \<^verbatim>\<open>DataView\<close>, little-endian.\<close>

definition getUint16 :: "data_view \<Rightarrow> nat \<Rightarrow> js_error + nat" where
  "getUint16 view off =
     (if off + 2 \<le> length view then Inr (read_u16 view off) else Inl RangeError)"

definition getUint32 :: "data_view \<Rightarrow> nat \<Rightarrow> js_error + nat" where
  "getUint32 view off =
     (if off + 4 \<le> length view then Inr (read_u32 view off) else Inl RangeError)"

text \<open>
  \<^verbatim>\<open>new Int16Array(arrayBuffer, dataOffset)\<close>: a view of the bytes from the offset to
  the end, two bytes per element, low byte first on the platforms the program runs
  on.  The constructor throws \<^verbatim>\<open>RangeError\<close> when the byte length of the buffer is
  odd or smaller than the offset.
\<close>

fun int16s :: "8 word list \<Rightarrow> 16 word list" where
  "int16s (lo # hi # rest) = of_nat (unat lo + 256 * unat hi) # int16s rest"
| "int16s _ = []"

definition newInt16Array :: "8 word list \<Rightarrow> nat \<Rightarrow> js_error + 16 word list" where
  "newInt16Array buf off =
     (if length buf mod 2 \<noteq> 0 \<or> length buf < off then Inl RangeError
      else Inr (int16s (drop off buf)))"

text \<open>
  The de-interleaving loop \<^verbatim>\<open>for (i = 0, j = 0; i < samples.length; i += 2, j++)\<close>
  into two arrays of \<^verbatim>\<open>samples.length / 2\<close> elements: a last unpaired sample has
  no slot in either array and is dropped.
\<close>

fun deinterleave :: "16 word list \<Rightarrow> 16 word list \<times> 16 word list" where
  "deinterleave (l # r # rest) = (case deinterleave rest of (ls, rs) \<Rightarrow> (l # ls, r # rs))"
| "deinterleave _ = ([], [])"

text \<open>
  The chunk loop \<^verbatim>\<open>for (let i = 0; i < left.length; i += chunkSize)\<close> with
  \<^verbatim>\<open>chunkSize = 1152\<close>; \<^verbatim>\<open>subarray(i, i + chunkSize)\<close> stops at the end of the
  array.  The state of the loop: the encoder, the calls made so far and \<^verbatim>\<open>mp3Data\<close>.
\<close>

function encode_chunks ::
  "'s mp3_codec \<Rightarrow> nat \<Rightarrow> 16 word list \<Rightarrow> 16 word list \<Rightarrow> nat \<Rightarrow> 's \<Rightarrow> codec_call list \<Rightarrow>
   8 word list list \<Rightarrow> 's \<times> codec_call list \<times> 8 word list list" where
  "encode_chunks codec numChannels left right i mp3enc calls mp3Data =
     (if i < length left then
        let leftChunk = take 1152 (drop i left);
            rightChunk = take 1152 (drop i right);
            (mp3buf, mp3enc') =
              (if numChannels = 2 then encodeBuffer2 codec mp3enc leftChunk rightChunk
               else encodeBuffer1 codec mp3enc leftChunk);
            call =
              (if numChannels = 2 then EncodeStereo leftChunk rightChunk
               else EncodeMono leftChunk)
        in encode_chunks codec numChannels left right (i + 1152) mp3enc' (calls @ [call])
             (if length mp3buf > 0 then mp3Data @ [mp3buf] else mp3Data)
      else (mp3enc, calls, mp3Data))"
  by pat_completeness auto
termination
  by (relation "measure (\<lambda>(codec, numChannels, left, right, i, mp3enc, calls, mp3Data).
        length left - i)") auto

declare encode_chunks.simps [simp del]

text \<open>
  The result: the calls made on the encoder, and the parts of the returned
  \<^verbatim>\<open>Blob\<close>, whose content is their concatenation.
\<close>

definition wavBlobToMp3Blob ::
  "'s mp3_codec \<Rightarrow> 8 word list \<Rightarrow> js_error + codec_call list \<times> 8 word list list" where
  "wavBlobToMp3Blob codec arrayBuffer =
     and_then (getUint16 arrayBuffer 22) (\<lambda>numChannels.
     and_then (getUint32 arrayBuffer 24) (\<lambda>rate.
     and_then (getUint16 arrayBuffer 34) (\<lambda>bitsPerSample.
     and_then (newInt16Array arrayBuffer 44) (\<lambda>samples.
       let (left, right) = (if numChannels = 2 then deinterleave samples else (samples, samples));
           mp3enc = newEncoder codec numChannels rate 128;
           (mp3enc', calls, mp3Data) = encode_chunks codec numChannels left right 0 mp3enc [] [];
           (tail, mp3enc'') = flush codec mp3enc'
       in Inr (calls @ [Flush], if length tail > 0 then mp3Data @ [tail] else mp3Data)))))"

definition blob_bytes :: "8 word list list \<Rightarrow> 8 word list" where
  "blob_bytes parts = concat parts"

text \<open>
  Running an encoder over a sequence of calls: the byte fragments the calls emit, in
  order, and the state they leave.
\<close>

definition codec_step :: "'s mp3_codec \<Rightarrow> 's \<Rightarrow> codec_call \<Rightarrow> 8 word list \<times> 's" where
  "codec_step codec s call =
     (case call of
        EncodeStereo l r \<Rightarrow> encodeBuffer2 codec s l r
      | EncodeMono l \<Rightarrow> encodeBuffer1 codec s l
      | Flush \<Rightarrow> flush codec s)"

fun run_codec :: "'s mp3_codec \<Rightarrow> 's \<Rightarrow> codec_call list \<Rightarrow> 8 word list list \<times> 's" where
  "run_codec codec s [] = ([], s)"
| "run_codec codec s (c # cs) =
     (case codec_step codec s c of (out, s') \<Rightarrow>
        (case run_codec codec s' cs of (outs, s'') \<Rightarrow> (out # outs, s'')))"

text \<open>
  The chunks of a channel array: chunk \<open>k\<close> holds the samples from index
  \<open>1152 * k\<close> up to (excluding) \<open>1152 * (k + 1)\<close> or the end of the array.
\<close>

definition chunk_count :: "16 word list \<Rightarrow> nat" where
  "chunk_count left = (length left + 1151) div 1152"

definition chunk :: "16 word list \<Rightarrow> nat \<Rightarrow> 16 word list" where
  "chunk xs k = take 1152 (drop (1152 * k) xs)"

definition chunk_call :: "nat \<Rightarrow> 16 word list \<Rightarrow> 16 word list \<Rightarrow> nat \<Rightarrow> codec_call" where
  "chunk_call numChannels left right k =
     (if numChannels = 2 then EncodeStereo (chunk left k) (chunk right k)
      else EncodeMono (chunk left k))"

text \<open>
  What the encoder reads from a WAV blob: the channel count at offset 22, the
  sample rate at offset 24, the samples from offset 44, and the two channel arrays
  it cuts into chunks (the same array twice unless the blob is stereo).
\<close>

definition wav_numChannels :: "8 word list \<Rightarrow> nat" where
  "wav_numChannels blob = read_u16 blob 22"

definition wav_samples :: "8 word list \<Rightarrow> 16 word list" where
  "wav_samples blob = int16s (drop 44 blob)"

definition mp3_left :: "8 word list \<Rightarrow> 16 word list" where
  "mp3_left blob =
     (if wav_numChannels blob = 2 then fst (deinterleave (wav_samples blob)) else wav_samples blob)"

definition mp3_right :: "8 word list \<Rightarrow> 16 word list" where
  "mp3_right blob =
     (if wav_numChannels blob = 2 then snd (deinterleave (wav_samples blob)) else wav_samples blob)"

text \<open>The expected call sequence: one call per chunk, in chunk order, then one flush.\<close>

definition mp3_calls :: "8 word list \<Rightarrow> codec_call list" where
  "mp3_calls blob =
     map (chunk_call (wav_numChannels blob) (mp3_left blob) (mp3_right blob))
       [0..<chunk_count (mp3_left blob)] @ [Flush]"

text \<open>
  A codec to run the encoder on: its state counts the calls, an encode call emits
  the chunk lengths and a flush emits one byte.  And a stereo WAV blob of two frames.
\<close>

definition counting_codec :: "nat mp3_codec" where
  "counting_codec =
     \<lparr>newEncoder = (\<lambda>channels rate kbps. 0),
      encodeBuffer2 = (\<lambda>s l r. ([of_nat (length l), of_nat (length r)], Suc s)),
      encodeBuffer1 = (\<lambda>s l. ([of_nat (length l)], Suc s)),
      flush = (\<lambda>s. ([255], s))\<rparr>"

definition mp3_example :: "8 word list" where
  "mp3_example = wav_header 2 44100 4 @ [1, 0, 2, 0, 3, 0, 4, 0]"

section \<open>The pattern renderer (\<^verbatim>\<open>renderToBuffer\<close>)\<close>

text \<open>
  A cell of the pattern grid; the renderer reads its note only.  An array slot may
  hold no cell at all (\<^verbatim>\<open>!cell\<close>).  A pattern is an array of channels, each an
  array of cells.
\<close>

record cell =
  cell_note :: string
  cell_instr :: string
  cell_vol :: string

type_synonym pattern = "cell option list list"

text \<open>
  The Web Audio objects the renderer builds are the program's interface to the
  browser, which does the synthesis.  The model keeps what the program hands over:
  the parameters of the \<^verbatim>\<open>OfflineAudioContext\<close>, the gain of the master node, and
  one voice per scheduled note (the oscillator frequency, the automation events of
  its envelope gain as pairs of time and value, and the start and stop times).
\<close>

record offline_ctx =
  ctx_channels :: nat
  ctx_length :: nat
  ctx_sampleRate :: nat

record voice =
  osc_frequency :: real
  gain_events :: "(real \<times> real) list"
  osc_start :: real
  osc_stop :: real

record audio_graph =
  graph_ctx :: offline_ctx
  master_gain :: real
  graph_voices :: "voice list"

text \<open>
  The length argument of the context is an \<^verbatim>\<open>unsigned long\<close>: the number is
  truncated and reduced modulo \<open>2^32\<close>, NaN, the infinities and the zeros become
  0; the constructor throws \<^verbatim>\<open>NotSupportedError\<close> for a length of zero.  A length too
  large for the memory of the machine is outside the model.
\<close>

definition to_unsigned_long :: "jsnum \<Rightarrow> nat" where
  "to_unsigned_long x = (case x of Fin r \<Rightarrow> nat (js_trunc r mod 4294967296) | _ \<Rightarrow> 0)"

definition newOfflineAudioContext :: "nat \<Rightarrow> jsnum \<Rightarrow> nat \<Rightarrow> js_error + offline_ctx" where
  "newOfflineAudioContext channels len rate =
     (let n = to_unsigned_long len
      in if n = 0 then Inl NotSupportedError
         else Inr \<lparr>ctx_channels = channels, ctx_length = n, ctx_sampleRate = rate\<rparr>)"

text \<open>
  A time handed to \<^verbatim>\<open>setValueAtTime\<close>, \<^verbatim>\<open>linearRampToValueAtTime\<close>,
  \<^verbatim>\<open>start\<close> or \<^verbatim>\<open>stop\<close>: \<^verbatim>\<open>TypeError\<close> when it is not finite,
  \<^verbatim>\<open>RangeError\<close> when it is negative.
\<close>

definition check_time :: "jsnum \<Rightarrow> js_error + real" where
  "check_time t =
     (case t of Fin r \<Rightarrow> if r < 0 then Inl RangeError else Inr r | NegZero \<Rightarrow> Inr 0
      | _ \<Rightarrow> Inl TypeError)"

text \<open>
  One note at time \<open>t\<close> on channel \<open>ci\<close>: \<^verbatim>\<open>freq = 110 + ci * 30\<close>,
  \<^verbatim>\<open>noteDur = 0.12\<close>, the four envelope events, then \<^verbatim>\<open>osc.start(t)\<close> and
  \<^verbatim>\<open>osc.stop(t + noteDur + 0.02)\<close>, in the order of the source.  The offsets of
  the events and the gains are written as the decimal numbers of the source, and
  added exactly: a finite time plus 0.14 is finite again in a double, so the checks
  of the times go as in the program; the last bit of the values handed over is seen
  by the engine only.
\<close>

definition schedule_note :: "nat \<Rightarrow> jsnum \<Rightarrow> js_error + voice" where
  "schedule_note ci t =
     and_then (check_time t) (\<lambda>t0.
     and_then (check_time (js_add t (Fin (5 / 1000)))) (\<lambda>t1.
     and_then (check_time (js_add t (Fin (12 / 100 * (1 / 2))))) (\<lambda>t2.
     and_then (check_time (js_add t (Fin (12 / 100)))) (\<lambda>t3.
     and_then (check_time t) (\<lambda>start.
     and_then (check_time (js_add t (Fin (12 / 100 + 2 / 100)))) (\<lambda>stop.
       Inr \<lparr>osc_frequency = 110 + real ci * 30,
            gain_events = [(t0, 0), (t1, 12 / 100), (t2, 3 / 100), (t3, 0)],
            osc_start = start, osc_stop = stop\<rparr>))))))"

text \<open>\<^verbatim>\<open>if (!cell || cell.note === '--') continue\<close>\<close>

definition skipped :: "cell option \<Rightarrow> bool" where
  "skipped c = (case c of None \<Rightarrow> True | Some cl \<Rightarrow> cell_note cl = ''--'')"

text \<open>The two scheduling loops: rows of a channel inside, channels outside.\<close>

fun schedule_row ::
  "nat \<Rightarrow> jsnum \<Rightarrow> nat \<Rightarrow> cell option list \<Rightarrow> voice list \<Rightarrow> js_error + voice list" where
  "schedule_row ci rowDur ri [] voices = Inr voices"
| "schedule_row ci rowDur ri (c # chan) voices =
     (if skipped c then schedule_row ci rowDur (ri + 1) chan voices
      else and_then (schedule_note ci (fl_mul (Fin (real ri)) rowDur))
             (\<lambda>v. schedule_row ci rowDur (ri + 1) chan (voices @ [v])))"

fun schedule_channels ::
  "jsnum \<Rightarrow> nat \<Rightarrow> pattern \<Rightarrow> voice list \<Rightarrow> js_error + voice list" where
  "schedule_channels rowDur ci [] voices = Inr voices"
| "schedule_channels rowDur ci (chan # chans) voices =
     and_then (schedule_row ci rowDur 0 chan voices)
       (\<lambda>voices. schedule_channels rowDur (ci + 1) chans voices)"

text \<open>
  \<^verbatim>\<open>offlineCtx.startRendering()\<close>: the browser renders the graph into a buffer
  that has the channel count, the length and the sample rate of the context.  The
  synthesis itself is a parameter: the sample the engine computes for a graph, a
  channel and a frame.
\<close>

type_synonym render_engine = "audio_graph \<Rightarrow> nat \<Rightarrow> nat \<Rightarrow> jsnum"

definition startRendering :: "render_engine \<Rightarrow> audio_graph \<Rightarrow> audio_buffer" where
  "startRendering engine g =
     \<lparr>sampleRate = ctx_sampleRate (graph_ctx g), frames = ctx_length (graph_ctx g),
      channelData =
        map (\<lambda>ch. map (\<lambda>i. engine g ch i) [0..<ctx_length (graph_ctx g)])
          [0..<ctx_channels (graph_ctx g)]\<rparr>"

text \<open>
  The duration arithmetic, every operation rounded to a double:
  \<^verbatim>\<open>rowDur = (60 / bpm) / 4\<close>, the natural duration \<^verbatim>\<open>rows * rowDur + 1\<close>,
  \<^verbatim>\<open>estimatedSeconds = Math.min(secondsLimit, rows * rowDur + 1)\<close> and the length
  \<^verbatim>\<open>Math.ceil(sampleRate * estimatedSeconds)\<close> asked of the context, with
  \<^verbatim>\<open>sampleRate = 44100\<close>.
\<close>

definition row_duration :: "jsnum \<Rightarrow> jsnum" where
  "row_duration bpm = fl_div (fl_div (Fin 60) bpm) (Fin 4)"

definition natural_duration :: "nat \<Rightarrow> jsnum \<Rightarrow> jsnum" where
  "natural_duration rows bpm = fl_add (fl_mul (Fin (real rows)) (row_duration bpm)) (Fin 1)"

definition estimated_seconds :: "nat \<Rightarrow> jsnum \<Rightarrow> jsnum \<Rightarrow> jsnum" where
  "estimated_seconds rows bpm secondsLimit = js_min secondsLimit (natural_duration rows bpm)"

definition requested_frames :: "nat \<Rightarrow> jsnum \<Rightarrow> jsnum \<Rightarrow> jsnum" where
  "requested_frames rows bpm secondsLimit =
     js_ceil (fl_mul (Fin 44100) (estimated_seconds rows bpm secondsLimit))"

text \<open>
  The buffer length as the specification words it, a formula on the real numbers:
  \<open>ceil (sampleRate * min (secondsLimit, steps * rowDuration + 1))\<close> with
  \<open>rowDuration = 60 / bpm / 4\<close>.
\<close>

definition spec_buffer_length :: "nat \<Rightarrow> real \<Rightarrow> real \<Rightarrow> int" where
  "spec_buffer_length steps bpm secondsLimit =
     \<lceil>44100 * min secondsLimit (real steps * (60 / bpm / 4) + 1)\<rceil>"

text \<open>
  \<^verbatim>\<open>pattern[0].length\<close> throws \<^verbatim>\<open>TypeError\<close> on a pattern without channels.
  The context has two channels; the master gain is 0.9.  The function returns what
  \<^verbatim>\<open>startRendering\<close> resolves to.
\<close>

definition renderToBuffer ::
  "render_engine \<Rightarrow> pattern \<Rightarrow> jsnum \<Rightarrow> jsnum \<Rightarrow> js_error + audio_buffer" where
  "renderToBuffer engine pattern bpm secondsLimit =
     (case pattern of
        [] \<Rightarrow> Inl TypeError
      | chan0 # _ \<Rightarrow>
          let rows = length chan0;
              rowDur = row_duration bpm
          in and_then (newOfflineAudioContext 2 (requested_frames rows bpm secondsLimit) 44100)
               (\<lambda>offlineCtx.
             and_then (schedule_channels rowDur 0 pattern [])
               (\<lambda>voices.
                  Inr (startRendering engine
                        \<lparr>graph_ctx = offlineCtx, master_gain = 9 / 10,
                         graph_voices = voices\<rparr>))))"

text \<open>What a caller sees of a result: the frame count, or one sample, of a returned buffer.\<close>

definition rendered_frames :: "js_error + audio_buffer \<Rightarrow> nat option" where
  "rendered_frames r = (case r of Inl e \<Rightarrow> None | Inr b \<Rightarrow> Some (frames b))"

definition rendered_sample :: "js_error + audio_buffer \<Rightarrow> nat \<Rightarrow> nat \<Rightarrow> jsnum option" where
  "rendered_sample r ch i = (case r of Inl e \<Rightarrow> None | Inr b \<Rightarrow> Some (channelData b ! ch ! i))"

text \<open>
  The nominal synthesis of the graph, for running the renderer on an input: each
  voice is an ideal sawtooth (phase 0 at its start, silent outside start and stop)
  times its envelope, which is 0 before the first event and linear between events;
  the voices are summed, scaled by the master gain and sent to every channel.  The
  time of frame \<open>i\<close> is \<open>i / sampleRate\<close>.
\<close>

definition sawtooth :: "real \<Rightarrow> real" where
  "sawtooth p = 2 * (p - of_int \<lfloor>p + 1 / 2\<rfloor>)"

fun ramp_value :: "(real \<times> real) list \<Rightarrow> real \<Rightarrow> real" where
  "ramp_value [] t = 0"
| "ramp_value [(t0, v0)] t = (if t < t0 then 0 else v0)"
| "ramp_value ((t0, v0) # (t1, v1) # es) t =
     (if t < t0 then 0
      else if t < t1 then v0 + (v1 - v0) * ((t - t0) / (t1 - t0))
      else ramp_value ((t1, v1) # es) t)"

definition voice_sample :: "voice \<Rightarrow> real \<Rightarrow> real" where
  "voice_sample v t =
     (if osc_start v \<le> t \<and> t < osc_stop v
      then ramp_value (gain_events v) t * sawtooth (osc_frequency v * (t - osc_start v))
      else 0)"

definition additive_mix :: render_engine where
  "additive_mix g ch i =
     Fin (master_gain g *
          sum_list (map (\<lambda>v. voice_sample v (real i / real (ctx_sampleRate (graph_ctx g))))
                     (graph_voices g)))"

text \<open>
  Patterns to run the renderer on: the empty 8 by 64 grid the editor starts with,
  and a grid of 30 channels with a note in its single row.
\<close>

definition silent_cell :: cell where
  "silent_cell = \<lparr>cell_note = ''--'', cell_instr = ''--'', cell_vol = ''--''\<rparr>"

definition note_cell :: cell where
  "note_cell = \<lparr>cell_note = ''C-4'', cell_instr = ''--'', cell_vol = ''--''\<rparr>"

definition makePattern :: pattern where
  "makePattern = replicate 8 (replicate 64 (Some silent_cell))"

definition dense_pattern :: pattern where
  "dense_pattern = replicate 30 [Some note_cell]"

text \<open>A pattern in which every cell is skipped by the renderer.\<close>

definition silent_pattern :: "pattern \<Rightarrow> bool" where
  "silent_pattern p = list_all (list_all skipped) p"

text \<open>The voice scheduled for a note in row 0 of channel \<open>ci\<close>.\<close>

definition dense_voice :: "nat \<Rightarrow> voice" where
  "dense_voice ci =
     \<lparr>osc_frequency = 110 + real ci * 30,
      gain_events = [(0, 0), (5 / 1000, 12 / 100), (12 / 100 * (1 / 2), 3 / 100), (12 / 100, 0)],
      osc_start = 0, osc_stop = 12 / 100 + 2 / 100\<rparr>"

definition dense_graph :: audio_graph where
  "dense_graph =
     \<lparr>graph_ctx = \<lparr>ctx_channels = 2, ctx_length = 49393, ctx_sampleRate = 44100\<rparr>,
      master_gain = 9 / 10, graph_voices = map dense_voice [0..<30]\<rparr>"

section \<open>Properties of the rounding\<close>

text \<open>
  The facts about \<open>round_double\<close> that the properties below rest on: a double
  is left as it is (\<open>round_double_exact\<close>), a value of binary exponent \<open>e\<close> in
  the normal range rounds to the nearest multiple of \<open>2\<close> to the power \<open>e - 52\<close>
  (\<open>round_double_normal\<close>, by which the rounding of a given number is computed),
  and rounding never crosses a double (\<open>round_double_le_double\<close>,
  \<open>round_double_ge_double\<close>, \<open>round_double_abs_le\<close>).
\<close>

lemma round_even_of_int: "round_even (of_int n) = n"
  by (simp add: round_even_def)

lemma round_even_lower: "of_int a \<le> r \<Longrightarrow> a \<le> round_even r"
  unfolding round_even_def Let_def by (auto simp: le_floor_iff) linarith+

lemma round_even_upper: "r \<le> of_int b \<Longrightarrow> round_even r \<le> b"
  unfolding round_even_def Let_def by (auto; linarith)

lemma ulp_pos: "0 < ulp x"
  by (simp add: ulp_def)


lemma floor_log2_lower: "x \<noteq> 0 \<Longrightarrow> 2 powr of_int \<lfloor>log 2 \<bar>x\<bar>\<rfloor> \<le> \<bar>x\<bar>"
proof -
  assume "x \<noteq> 0"
  then have p: "0 < \<bar>x\<bar>" by simp
  define y :: real where "y = of_int \<lfloor>log 2 \<bar>x\<bar>\<rfloor>"
  have "y \<le> log 2 \<bar>x\<bar>" unfolding y_def by simp
  moreover have "(y \<le> log 2 \<bar>x\<bar>) = (2 powr y \<le> \<bar>x\<bar>)" using p by (intro le_log_iff) simp_all
  ultimately show ?thesis unfolding y_def by blast
qed

lemma floor_log2_upper: "x \<noteq> 0 \<Longrightarrow> \<bar>x\<bar> < 2 powr (of_int \<lfloor>log 2 \<bar>x\<bar>\<rfloor> + 1)"
proof -
  assume "x \<noteq> 0"
  then have p: "0 < \<bar>x\<bar>" by simp
  define y :: real where "y = of_int \<lfloor>log 2 \<bar>x\<bar>\<rfloor> + 1"
  have "log 2 \<bar>x\<bar> < y" unfolding y_def by linarith
  moreover have "(log 2 \<bar>x\<bar> < y) = (\<bar>x\<bar> < 2 powr y)" using p by (intro log_less_iff) simp_all
  ultimately show ?thesis unfolding y_def by blast
qed

lemma floor_log2_eq:
  assumes "2 powr of_int e \<le> \<bar>x\<bar>" and "\<bar>x\<bar> < 2 powr (of_int e + 1)"
  shows "\<lfloor>log 2 \<bar>x\<bar>\<rfloor> = e"
proof -
  have "0 < (2::real) powr of_int e" by simp
  then have p: "0 < \<bar>x\<bar>" using assms(1) by linarith
  have "of_int e \<le> log 2 \<bar>x\<bar>" using assms(1) p by (simp add: le_log_iff)
  moreover have "log 2 \<bar>x\<bar> < of_int e + 1" using assms(2) p by (simp add: log_less_iff)
  ultimately show ?thesis by (simp add: floor_eq_iff)
qed

lemma powr_of_int_nonneg: "0 \<le> i \<Longrightarrow> (2::real) powr of_int i = of_int (2 ^ nat i)"
  by (simp add: powr_real_of_int)

lemma ulp_divides:
  fixes m k :: int
  assumes b: "b = of_int m * 2 powr of_int k" and m: "\<bar>m\<bar> < 2 ^ 53" and k: "- 1074 \<le> k"
    and big: "\<lfloor>log 2 \<bar>x\<bar>\<rfloor> < - 1022 \<or> 2 powr of_int \<lfloor>log 2 \<bar>x\<bar>\<rfloor> \<le> \<bar>b\<bar>"
  shows "\<exists>j::int. b = of_int j * ulp x"
proof -
  define e where "e = \<lfloor>log 2 \<bar>x\<bar>\<rfloor>"
  define E where "E = max e (- 1022) - 52"
  have E: "E \<le> k"
  proof (cases "e < - 1022")
    case True
    then show ?thesis using k by (simp add: E_def)
  next
    case False
    then have "2 powr of_int e \<le> \<bar>b\<bar>" using big by (simp add: e_def)
    also have "\<bar>b\<bar> = of_int \<bar>m\<bar> * 2 powr of_int k" by (simp add: b abs_mult)
    also have "\<dots> < 2 ^ 53 * 2 powr of_int k"
    proof -
      have "real_of_int \<bar>m\<bar> < real_of_int (2 ^ 53)" using m by (simp only: of_int_less_iff)
      then show ?thesis by simp
    qed
    also have "\<dots> = 2 powr of_int (53 + k)" by (simp add: powr_add)
    finally have "e < 53 + k" by simp
    then show ?thesis using False by (simp add: E_def)
  qed
  have "(2::real) powr of_int k = 2 powr of_int (k - E) * 2 powr of_int E"
    by (simp add: powr_add [symmetric])
  moreover have "(2::real) powr of_int (k - E) = of_int (2 ^ nat (k - E))"
    using E by (intro powr_of_int_nonneg) simp
  ultimately have "b = of_int (m * 2 ^ nat (k - E)) * ulp x"
    by (simp add: b ulp_def e_def E_def)
  then show ?thesis by blast
qed

lemma round_double_exact:
  fixes m k :: int
  assumes b: "b = of_int m * 2 powr of_int k" and m: "\<bar>m\<bar> < 2 ^ 53" and k: "- 1074 \<le> k"
    and fin: "\<bar>b\<bar> < 2 ^ 1024"
  shows "round_double b = Fin b"
proof (cases "b = 0")
  case True
  then show ?thesis by (simp add: round_double_def)
next
  case False
  then have "2 powr of_int \<lfloor>log 2 \<bar>b\<bar>\<rfloor> \<le> \<bar>b\<bar>" by (rule floor_log2_lower)
  then obtain j :: int where j: "b = of_int j * ulp b"
    using ulp_divides [OF b m k, of b] by blast
  have "b / ulp b = of_int j"
  proof -
    have "b / ulp b = of_int j * ulp b / ulp b" using j by simp
    then show ?thesis using ulp_pos [of b] by simp
  qed
  then have "of_int (round_even (b / ulp b)) * ulp b = b"
    using j by (simp add: round_even_of_int)
  then show ?thesis using False fin by (simp add: round_double_def Let_def)
qed

lemma round_double_normal:
  fixes e :: int
  assumes e: "- 1022 \<le> e" "e \<le> 1022"
    and lo: "2 powr of_int e \<le> \<bar>x\<bar>" and hi: "\<bar>x\<bar> < 2 powr (of_int e + 1)"
  shows "round_double x =
         Fin (of_int (round_even (x / 2 powr of_int (e - 52))) * 2 powr of_int (e - 52))"
proof -
  define q :: real where "q = 2 powr of_int (e - 52)"
  define n where "n = round_even (x / q)"
  have q: "0 < q" by (simp add: q_def)
  have fl: "\<lfloor>log 2 \<bar>x\<bar>\<rfloor> = e" using lo hi by (rule floor_log2_eq)
  have u: "ulp x = q" using e by (simp add: ulp_def fl q_def)
  have "0 < (2::real) powr of_int e" by simp
  then have "0 < \<bar>x\<bar>" using lo by linarith
  then have x0: "x \<noteq> 0" by simp
  have "\<bar>x / q\<bar> < 2 powr 53"
  proof -
    have "\<bar>x / q\<bar> = \<bar>x\<bar> / q" using q by simp
    also have "\<dots> < 2 powr (of_int e + 1) / q" using hi q by (simp add: divide_strict_right_mono)
    also have "\<dots> = 2 powr 53" by (simp add: q_def powr_diff [symmetric])
    finally show ?thesis .
  qed
  then have xq: "\<bar>x / q\<bar> < real_of_int (2 ^ 53)" by simp
  then have "x / q \<le> real_of_int (2 ^ 53)" by linarith
  then have n1: "n \<le> 2 ^ 53" unfolding n_def by (rule round_even_upper)
  have "real_of_int (- (2 ^ 53)) = - real_of_int (2 ^ 53)" by simp
  then have "real_of_int (- (2 ^ 53)) \<le> x / q" using xq by linarith
  then have n2: "- (2 ^ 53) \<le> n" unfolding n_def by (rule round_even_lower)
  have "\<bar>n\<bar> \<le> 2 ^ 53" using n1 n2 by linarith
  then have "real_of_int \<bar>n\<bar> \<le> real_of_int (2 ^ 53)" by (simp only: of_int_le_iff)
  then have mm: "\<bar>real_of_int n\<bar> \<le> 2 powr 53" by simp
  have "\<bar>of_int n * q\<bar> = \<bar>real_of_int n\<bar> * q" using q by (simp add: abs_mult)
  also have "\<dots> \<le> 2 powr 53 * q" using mm q by (simp add: mult_right_mono)
  also have "\<dots> = 2 powr (of_int e + 1)"
  proof -
    have "q = 2 powr (real_of_int e - 52)" by (simp add: q_def)
    moreover have "(2::real) powr 53 * 2 powr (real_of_int e - 52) = 2 powr (53 + (real_of_int e - 52))"
      by (rule powr_add [symmetric])
    moreover have "53 + (real_of_int e - 52) = real_of_int e + 1" by simp
    ultimately show ?thesis by simp
  qed
  also have "\<dots> \<le> 2 powr real (1023::nat)" by (rule powr_mono) (use e in simp_all)
  also have "\<dots> = 2 ^ 1023" by (rule powr_realpow) simp
  also have "\<dots> < (2::real) ^ 1024" by (rule power_strict_increasing) simp_all
  finally have "\<not> 2 ^ 1024 \<le> \<bar>of_int n * q\<bar>" by simp
  then show ?thesis using x0 u by (simp add: round_double_def Let_def q_def n_def)
qed

lemma round_double_le_double:
  fixes m k :: int
  assumes h: "h = of_int m * 2 powr of_int k" "\<bar>m\<bar> < 2 ^ 53" "- 1074 \<le> k"
    and x: "0 < x" "x \<le> h" and fin: "h < 2 ^ 1024"
  shows "\<exists>y. round_double x = Fin y \<and> 0 \<le> y \<and> y \<le> h"
proof -
  have x0: "x \<noteq> 0" using x by simp
  have "2 powr of_int \<lfloor>log 2 \<bar>x\<bar>\<rfloor> \<le> \<bar>x\<bar>" using x0 by (rule floor_log2_lower)
  then have "2 powr of_int \<lfloor>log 2 \<bar>x\<bar>\<rfloor> \<le> \<bar>h\<bar>" using x by linarith
  then obtain j :: int where j: "h = of_int j * ulp x"
    using ulp_divides [OF h, of x] by blast
  define n where "n = round_even (x / ulp x)"
  have u: "0 < ulp x" by (rule ulp_pos)
  have "x / ulp x \<le> of_int j" using x(2) j u by (simp add: pos_divide_le_eq)
  then have "n \<le> j" unfolding n_def by (rule round_even_upper)
  then have "real_of_int n \<le> real_of_int j" by simp
  then have le: "of_int n * ulp x \<le> h" using j u by (simp add: mult_right_mono)
  have "real_of_int 0 \<le> x / ulp x" using x(1) u by simp
  then have "0 \<le> n" unfolding n_def by (rule round_even_lower)
  then have ge: "0 \<le> of_int n * ulp x" using u by simp
  have "\<bar>of_int n * ulp x\<bar> < 2 ^ 1024" using le ge fin by linarith
  then have "round_double x = Fin (of_int n * ulp x)"
    using x0 by (simp add: round_double_def Let_def n_def)
  then show ?thesis using le ge by blast
qed

lemma round_double_ge_double:
  fixes m k :: int
  assumes l: "l = of_int m * 2 powr of_int k" "\<bar>m\<bar> < 2 ^ 53" "- 1074 \<le> k"
    and x: "0 < l" "l \<le> x" and y: "round_double x = Fin y"
  shows "l \<le> y"
proof -
  have x0: "x \<noteq> 0" using x by simp
  define e where "e = \<lfloor>log 2 \<bar>x\<bar>\<rfloor>"
  define n where "n = round_even (x / ulp x)"
  have u: "0 < ulp x" by (rule ulp_pos)
  have yn: "y = of_int n * ulp x"
    using x0 y by (auto simp: round_double_def Let_def n_def split: if_splits)
  show ?thesis
  proof (cases "e < - 1022 \<or> 2 powr of_int e \<le> \<bar>l\<bar>")
    case True
    then obtain j :: int where j: "l = of_int j * ulp x"
      using ulp_divides [OF l, of x] unfolding e_def by blast
    have "of_int j \<le> x / ulp x" using x(2) j u by (simp add: pos_le_divide_eq)
    then have "j \<le> n" unfolding n_def by (rule round_even_lower)
    then have "real_of_int j \<le> real_of_int n" by simp
    then show ?thesis using j u yn by (simp add: mult_right_mono)
  next
    case False
    then have e: "- 1022 \<le> e" and small: "l < 2 powr of_int e" using x(1) by simp_all
    have ux: "ulp x = 2 powr (of_int e - 52)" using e by (simp add: ulp_def e_def)
    have "2 powr of_int e \<le> \<bar>x\<bar>" unfolding e_def using x0 by (rule floor_log2_lower)
    then have xe: "2 powr of_int e \<le> x" using x by simp
    have split: "(2::real) powr of_int e = 2 powr 52 * ulp x"
    proof -
      have "(2::real) powr 52 * 2 powr (of_int e - 52) = 2 powr (52 + (of_int e - 52))"
        by (rule powr_add [symmetric])
      then show ?thesis by (simp add: ux)
    qed
    have "real_of_int (2 ^ 52) = 2 powr 52" by simp
    moreover have "2 powr 52 \<le> x / ulp x" using xe split u by (simp add: pos_le_divide_eq)
    ultimately have "real_of_int (2 ^ 52) \<le> x / ulp x" by simp
    then have "2 ^ 52 \<le> n" unfolding n_def by (rule round_even_lower)
    then have "real_of_int (2 ^ 52) \<le> real_of_int n" by (simp only: of_int_le_iff)
    then have "2 powr 52 \<le> real_of_int n" by simp
    then have "2 powr 52 * ulp x \<le> real_of_int n * ulp x" using u by (simp add: mult_right_mono)
    then show ?thesis using split small yn by linarith
  qed
qed

lemma round_double_nonneg:
  assumes "0 \<le> x"
  shows "round_double x = PosInf \<or> (\<exists>y. round_double x = Fin y \<and> 0 \<le> y)"
proof (cases "x = 0")
  case True
  then show ?thesis by (simp add: round_double_def)
next
  case False
  have u: "0 < ulp x" by (rule ulp_pos)
  have "real_of_int 0 \<le> x / ulp x" using assms u by simp
  then have "0 \<le> round_even (x / ulp x)" by (rule round_even_lower)
  then have "0 \<le> of_int (round_even (x / ulp x)) * ulp x" using u by simp
  then show ?thesis using False assms by (auto simp: round_double_def Let_def)
qed

lemma round_double_nonpos:
  assumes "x \<le> 0"
  shows "round_double x = NegInf \<or> (\<exists>y. round_double x = Fin y \<and> y \<le> 0)"
proof (cases "x = 0")
  case True
  then show ?thesis by (simp add: round_double_def)
next
  case False
  have u: "0 < ulp x" by (rule ulp_pos)
  have "x / ulp x \<le> real_of_int 0" using assms u by (simp add: divide_le_0_iff)
  then have "round_even (x / ulp x) \<le> 0" by (rule round_even_upper)
  then have "of_int (round_even (x / ulp x)) * ulp x \<le> 0" using u by (simp add: mult_le_0_iff)
  then show ?thesis using False assms by (auto simp: round_double_def Let_def)
qed

lemma round_double_abs_le:
  fixes K :: int
  assumes K: "- 1074 \<le> K" "K \<le> 1023" and x: "\<bar>x\<bar> \<le> 2 powr of_int K"
  shows "\<exists>y. round_double x = Fin y \<and> \<bar>y\<bar> \<le> 2 powr of_int K"
proof (cases "x = 0")
  case True
  then show ?thesis by (simp add: round_double_def)
next
  case False
  define B :: real where "B = 2 powr of_int K"
  have B: "B = of_int 1 * 2 powr of_int K" by (simp add: B_def)
  have Bpos: "0 < B" by (simp add: B_def)
  have "2 powr of_int \<lfloor>log 2 \<bar>x\<bar>\<rfloor> \<le> \<bar>x\<bar>" using False by (rule floor_log2_lower)
  moreover have "\<bar>x\<bar> \<le> B" using x unfolding B_def .
  moreover have "\<bar>B\<bar> = B" using Bpos by (rule abs_of_pos)
  ultimately have "2 powr of_int \<lfloor>log 2 \<bar>x\<bar>\<rfloor> \<le> \<bar>B\<bar>" by linarith
  then obtain j :: int where j: "B = of_int j * ulp x"
    using ulp_divides [OF B _ K(1), of x] by auto
  define n where "n = round_even (x / ulp x)"
  have u: "0 < ulp x" by (rule ulp_pos)
  have xb: "x \<le> B" "- B \<le> x" using x by (simp_all add: B_def abs_le_iff) 
  have "x / ulp x \<le> of_int j" using xb(1) j u by (simp add: pos_divide_le_eq)
  then have "n \<le> j" unfolding n_def by (rule round_even_upper)
  then have "real_of_int n \<le> real_of_int j" by simp
  then have le: "of_int n * ulp x \<le> B" using j u by (simp add: mult_right_mono)
  have "of_int (- j) \<le> x / ulp x" using xb(2) j u by (simp add: pos_le_divide_eq)
  then have "- j \<le> n" unfolding n_def by (rule round_even_lower)
  then have "real_of_int (- j) \<le> real_of_int n" by (simp only: of_int_le_iff)
  then have "real_of_int (- j) * ulp x \<le> real_of_int n * ulp x" using u by (simp only: mult_right_mono less_imp_le)
  then have ge: "- B \<le> of_int n * ulp x" using j by simp
  have ab: "\<bar>of_int n * ulp x\<bar> \<le> B" using le ge by (simp add: abs_le_iff)
  have "B \<le> 2 powr real (1023::nat)" unfolding B_def by (rule powr_mono) (use K in simp_all)
  also have "\<dots> = 2 ^ 1023" by (rule powr_realpow) simp
  also have "\<dots> < (2::real) ^ 1024" by (rule power_strict_increasing) simp_all
  finally have "\<bar>of_int n * ulp x\<bar> < 2 ^ 1024" using ab by linarith
  then have "round_double x = Fin (of_int n * ulp x)"
    using False by (simp add: round_double_def Let_def n_def)
  then show ?thesis using ab by (simp add: B_def)
qed

lemma round_double_of_int: "\<bar>n\<bar> < 2 ^ 53 \<Longrightarrow> round_double (of_int n) = Fin (of_int n)"
proof -
  assume n: "\<bar>n\<bar> < 2 ^ 53"
  then have "real_of_int \<bar>n\<bar> < real_of_int (2 ^ 53)" by (simp only: of_int_less_iff)
  then have "\<bar>real_of_int n\<bar> < 2 ^ 53" by simp
  also have "\<dots> < (2::real) ^ 1024" by (rule power_strict_increasing) simp_all
  finally have "\<bar>real_of_int n\<bar> < 2 ^ 1024" .
  then show ?thesis using round_double_exact [of "of_int n" n 0] n by simp
qed

text \<open>The rounded operations on finite numbers, and the rounding of whole numbers.\<close>

lemma fl_Fin [simp]: "fl (Fin r) = round_double r"
  by (simp add: fl_def)

lemma fl_special [simp]: "fl NaN = NaN" "fl PosInf = PosInf" "fl NegInf = NegInf" "fl NegZero = NegZero"
  by (simp_all add: fl_def)

lemma round_double_0 [simp]: "round_double 0 = Fin 0"
  by (simp add: round_double_def)

lemma round_double_numeral [simp]:
  "numeral n < (2::int) ^ 53 \<Longrightarrow> round_double (numeral n) = Fin (numeral n)"
  using round_double_of_int [of "numeral n"] by simp

lemma round_double_neg_numeral [simp]:
  "numeral n < (2::int) ^ 53 \<Longrightarrow> round_double (- numeral n) = Fin (- numeral n)"
  using round_double_of_int [of "- numeral n"] by simp

lemma round_double_1 [simp]: "round_double 1 = Fin 1"
  using round_double_of_int [of 1] by simp

lemma fl_div_Fin: "b \<noteq> 0 \<Longrightarrow> fl_div (Fin a) (Fin b) = round_double (a / b)"
  by (simp add: fl_div_def)

lemma fl_mul_Fin: "fl_mul (Fin a) (Fin b) = round_double (a * b)"
  by (simp add: fl_mul_def)

lemma fl_add_Fin: "fl_add (Fin a) (Fin b) = round_double (a + b)"
  by (simp add: fl_add_def)

lemmas fl_Fin_simps = fl_div_Fin fl_mul_Fin fl_add_Fin

section \<open>Properties of the note mapper\<close>

text \<open>What every implementation of \<^verbatim>\<open>Math.log2\<close> gives: the logarithm of a power of two, and a value within the range.\<close>

lemma rep_log2_pow:
  fixes k :: int
  shows "- 1074 \<le> k \<Longrightarrow> k \<le> 1023 \<Longrightarrow> Rep_log2_impl impl (2 powr of_int k) = of_int k"
  using Rep_log2_impl [of impl] by simp

lemma rep_log2_bound: "\<bar>Rep_log2_impl impl x\<bar> \<le> 1075"
  using Rep_log2_impl [of impl] by simp

lemma rep_log2_1: "Rep_log2_impl impl 1 = 0"
  using rep_log2_pow [of 0 impl] by simp

lemma rep_log2_2: "Rep_log2_impl impl 2 = 1"
  using rep_log2_pow [of 1 impl] by simp

lemma rep_log2_64th: "Rep_log2_impl impl (1 / 64) = - 6"
  using rep_log2_pow [of "- 6" impl] by (simp add: powr_minus)

lemma round_double_quarters:
  "round_double (23 / 4) = Fin (23 / 4)" "round_double (27 / 4) = Fin (27 / 4)"
  "round_double (- (1 / 4)) = Fin (- (1 / 4))" "round_double (1 / 64) = Fin (1 / 64)"
  using round_double_exact [of "23 / 4" 23 "- 2"] round_double_exact [of "27 / 4" 27 "- 2"]
    round_double_exact [of "- (1 / 4)" "- 1" "- 2"] round_double_exact [of "1 / 64" 1 "- 6"]
  by (simp_all add: powr_minus)

lemma js_trunc_0 [simp]: "js_trunc 0 = 0"
  by (simp add: js_trunc_def)

lemma js_trunc_div12:
  "js_trunc (of_int m / 12) = (if m < 0 then - ((- m) div 12) else m div 12)"
proof -
  have f: "\<lfloor>real_of_int k / 12\<rfloor> = k div 12" for k
    using floor_divide_of_int_eq [of k 12] by simp
  have "\<lceil>real_of_int m / 12\<rceil> = - \<lfloor>real_of_int (- m) / 12\<rfloor>" by (simp add: ceiling_def)
  then show ?thesis using f [of m] f [of "- m"]
    by (simp add: js_trunc_def)
qed

lemma js_remainder_int:
  "js_remainder (Fin (of_int m)) (Fin 12) = Fin (of_int (js_rem m 12))"
proof (cases "m < 0")
  case True
  have "12 * ((- m) div 12) + (- m) mod 12 = - m" by (rule mult_div_mod_eq)
  then have "m + 12 * ((- m) div 12) = - ((- m) mod 12)" by linarith
  then have "real_of_int (m + 12 * ((- m) div 12)) = real_of_int (- ((- m) mod 12))"
    by (simp only:)
  then have "real_of_int m - 12 * real_of_int (- ((- m) div 12)) = real_of_int (- ((- m) mod 12))"
    by simp
  then show ?thesis using True by (simp add: js_trunc_div12 js_rem_def)
next
  case False
  have "12 * (m div 12) + m mod 12 = m" by (rule mult_div_mod_eq)
  then have "m - 12 * (m div 12) = m mod 12" by linarith
  then have "real_of_int (m - 12 * (m div 12)) = real_of_int (m mod 12)"
    by (simp only:)
  then have "real_of_int m - 12 * real_of_int (m div 12) = real_of_int (m mod 12)"
    by simp
  then show ?thesis using False
    by (cases "m = 0") (simp_all add: js_trunc_div12 js_rem_def)
qed

lemma note_at_num_int: "note_at_num (Fin (of_int i)) = note_at i"
  by (simp add: note_at_num_def)

lemmas show_simps = js_rem_def note_at_def NOTE_NAMES_def template_note_def int_to_string_def
  nat_to_string.simps digit_char_def number_to_string_def note_at_num_def

lemma undefined_not_note_name: "\<not> is_note_name (''undefined'' @ s)"
  by (auto simp: is_note_name_def NOTE_NAMES_def)

lemma js_rem_nonneg: "0 \<le> a \<Longrightarrow> js_rem a 12 = a mod 12"
  by (cases "a = 0") (simp_all add: js_rem_def)

lemma js_rem_neg: "a < 0 \<Longrightarrow> a mod 12 \<noteq> 0 \<Longrightarrow> js_rem a 12 < 0"
proof -
  assume a: "a < 0" and m: "a mod 12 \<noteq> 0"
  have "\<bar>a\<bar> mod 12 \<noteq> 0"
    using m by (metis abs_of_neg a dvd_minus_iff mod_eq_0_iff_dvd)
  moreover have "0 \<le> \<bar>a\<bar> mod 12" by simp
  ultimately have "0 < \<bar>a\<bar> mod 12" by linarith
  then show ?thesis using a by (simp add: js_rem_def)
qed

lemma midi_440: "midi_of impl (Fin 440) = Fin 69"
  by (simp add: midi_of_def semitones_of_def fl_Fin_simps js_log2_def rep_log2_1)

lemma midi_880: "midi_of impl (Fin 880) = Fin 81"
  by (simp add: midi_of_def semitones_of_def fl_Fin_simps js_log2_def rep_log2_2)

lemma midi_low: "midi_of impl (Fin (55 / 8)) = Fin (- 3)"
  by (simp add: midi_of_def semitones_of_def fl_Fin_simps js_log2_def rep_log2_64th
      round_double_quarters)

lemma note_name_midi:
  "note_name impl freq =
     template_note (note_at_num (js_remainder (midi_of impl freq) (Fin 12))) @
     number_to_string (fl_add (js_floor (fl_div (midi_of impl freq) (Fin 12))) (Fin (- 1)))"
  by (simp add: note_name_def midi_of_def semitones_of_def Let_def)

lemma name_440: "note_name impl (Fin 440) = ''A4''"
  unfolding note_name_midi midi_440
  by (simp add: fl_Fin_simps round_double_quarters js_trunc_def show_simps)

lemma name_880: "note_name impl (Fin 880) = ''A5''"
  unfolding note_name_midi midi_880
  by (simp add: fl_Fin_simps round_double_quarters js_trunc_def show_simps)

lemma rem_minus_3: "js_remainder (Fin (- 3)) (Fin 12) = Fin (- 3)"
  using js_remainder_int [of "- 3"] by (simp add: js_rem_def)

lemma name_low: "note_name impl (Fin (55 / 8)) = ''undefined-2''"
  unfolding note_name_midi midi_low rem_minus_3
  by (simp add: fl_Fin_simps round_double_quarters show_simps)

text \<open>
  A finite MIDI number is a whole number, 69 more than the semitone offset (the
  addition is exact), and both are small; the division of a MIDI number by 12 is
  rounded, but not across a whole number, so that the octave is exact.
\<close>

lemma midi_of_Fin:
  assumes f: "0 < freq" and m: "midi_of impl (Fin freq) = Fin v"
  shows "\<exists>s::int. semitones_of impl (Fin freq) = Fin (of_int s) \<and> v = of_int (69 + s) \<and>
           \<bar>s\<bar> \<le> 16385"
proof -
  have "0 \<le> freq / 440" using f by simp
  then consider "round_double (freq / 440) = PosInf"
    | q where "round_double (freq / 440) = Fin q" "0 \<le> q"
    using round_double_nonneg by blast
  then show ?thesis
  proof cases
    case 1
    then have "midi_of impl (Fin freq) = PosInf"
      by (simp add: midi_of_def semitones_of_def fl_div_Fin js_log2_def fl_mul_def fl_add_def)
    then show ?thesis using m by simp
  next
    case 2
    show ?thesis
    proof (cases "q = 0")
      case True
      then have "midi_of impl (Fin freq) = NegInf"
        using 2 by (simp add: midi_of_def semitones_of_def fl_div_Fin js_log2_def fl_mul_def fl_add_def)
      then show ?thesis using m by simp
    next
      case False
      define l where "l = Rep_log2_impl impl q"
      have lg: "js_log2 impl (fl_div (Fin freq) (Fin 440)) = Fin l"
        using 2 False by (simp add: fl_div_Fin js_log2_def l_def)
      have "\<bar>l\<bar> \<le> 1075" unfolding l_def by (rule rep_log2_bound)
      then have "\<bar>12 * l\<bar> \<le> 2 powr of_int 14" by simp
      then obtain p where p: "round_double (12 * l) = Fin p" and pb: "\<bar>p\<bar> \<le> 2 powr of_int 14"
        using round_double_abs_le [of 14 "12 * l"] by auto
      define s where "s = \<lfloor>p + 1 / 2\<rfloor>"
      have pb': "\<bar>p\<bar> \<le> 16384" using pb by simp
      have sb: "\<bar>s\<bar> \<le> 16385" unfolding s_def using pb' by linarith
      have st: "semitones_of impl (Fin freq) = Fin (of_int s)"
        by (simp add: semitones_of_def lg fl_mul_Fin p s_def)
      have "\<bar>69 + s\<bar> < 2 ^ 53" using sb by simp
      then have "round_double (of_int (69 + s)) = Fin (of_int (69 + s))"
        by (rule round_double_of_int)
      then have "midi_of impl (Fin freq) = Fin (of_int (69 + s))"
        by (simp add: midi_of_def st fl_add_Fin)
      then have "v = of_int (69 + s)" using m by simp
      then show ?thesis using st sb by blast
    qed
  qed
qed

lemma floor_div12_exact:
  assumes m: "0 \<le> m" "m < 2 ^ 40"
  shows "\<exists>y. round_double (of_int m / 12) = Fin y \<and> \<lfloor>y\<rfloor> = m div 12"
proof (cases "m = 0")
  case True
  then show ?thesis by simp
next
  case False
  define a where "a = m div 12"
  define j where "j = m mod 12"
  have mj: "m = 12 * a + j" unfolding a_def j_def by simp
  have jb: "0 \<le> j" "j \<le> 11" unfolding j_def by simp_all
  have ab: "0 \<le> a" "a < 2 ^ 40" unfolding a_def using m by simp_all
  define x :: real where "x = of_int m / 12"
  have xe: "x = of_int a + of_int j / 12" unfolding x_def mj by simp
  have xpos: "0 < x" unfolding x_def using m False by simp
  define h :: real where "h = of_int (16 * a + 15) * 2 powr of_int (- 4)"
  have hv: "h = of_int a + 15 / 16" by (simp add: h_def powr_minus field_simps)
  have "real_of_int j \<le> 11" using jb by simp
  then have xh: "x \<le> h" unfolding xe hv by simp
  have "16 * a + 15 < 2 ^ 53" using ab by simp
  then have hm: "\<bar>16 * a + 15\<bar> < 2 ^ 53" using ab by simp
  have "real_of_int a < real_of_int (2 ^ 40)" using ab by (simp only: of_int_less_iff)
  then have "h < 2 ^ 41" unfolding hv by simp
  also have "\<dots> < (2::real) ^ 1024" by (rule power_strict_increasing) simp_all
  finally have hfin: "h < 2 ^ 1024" .
  obtain y where y: "round_double x = Fin y" "0 \<le> y" "y \<le> h"
    using round_double_le_double [OF h_def hm _ xpos xh hfin] by auto
  have up: "y < of_int a + 1" using y(3) hv by simp
  have lo: "of_int a \<le> y"
  proof (cases "a = 0")
    case True
    then show ?thesis using y(2) by simp
  next
    case False
    have l: "real_of_int a = of_int a * 2 powr of_int 0" by simp
    have am: "\<bar>a\<bar> < 2 ^ 53" using ab by simp
    have apos: "0 < real_of_int a" using False ab by simp
    have "0 \<le> real_of_int j" using jb by simp
    then have ax: "real_of_int a \<le> x" unfolding xe by simp
    show ?thesis using round_double_ge_double [OF l am _ apos ax y(1)] by simp
  qed
  have "\<lfloor>y\<rfloor> = a" using lo up by (simp add: floor_eq_iff)
  then show ?thesis using y(1) unfolding x_def a_def by blast
qed

lemma octave_exact:
  assumes m: "0 \<le> m" "m < 2 ^ 40"
  shows "fl_add (js_floor (fl_div (Fin (of_int m)) (Fin 12))) (Fin (- 1)) =
         Fin (of_int (m div 12 - 1))"
proof -
  obtain y where y: "round_double (of_int m / 12) = Fin y" "\<lfloor>y\<rfloor> = m div 12"
    using floor_div12_exact [OF m] by blast
  have "0 \<le> m div 12" "m div 12 < 2 ^ 40" using m by simp_all
  then have "\<bar>m div 12 - 1\<bar> < 2 ^ 53" by simp
  then have "round_double (of_int (m div 12 - 1)) = Fin (of_int (m div 12 - 1))"
    by (rule round_double_of_int)
  then show ?thesis by (simp add: fl_div_Fin y fl_add_Fin)
qed

lemma freqToNoteName_below_table:
  assumes "0 < freq" and "midi_of impl (Fin freq) = Fin (of_int m)" and "m < 0"
    and "m mod 12 \<noteq> 0"
  shows "js_rem m 12 < 0 \<and>
     (\<exists>s. freqToNoteName impl (Num (Fin freq)) = ''undefined'' @ s)"
proof -
  have r: "js_rem m 12 < 0" using assms(3,4) by (rule js_rem_neg)
  then have "note_at (js_rem m 12) = None" by (simp add: note_at_def)
  then have "note_name impl (Fin freq) =
      ''undefined'' @
      number_to_string (fl_add (js_floor (fl_div (Fin (of_int m)) (Fin 12))) (Fin (- 1)))"
    unfolding note_name_midi assms(2) js_remainder_int note_at_num_int
    by (simp add: template_note_def)
  then show ?thesis using r assms(1) by auto
qed

text \<open>
  C4 (as amended).  For every positive frequency whose MIDI number, as the mapper
  computes it in double arithmetic (the quotient \<open>freq / 440\<close> rounded, the
  platform's \<^verbatim>\<open>Math.log2\<close> of it, the product by 12 rounded, then
  \<^verbatim>\<open>Math.round\<close> and the addition of 69), is a whole number \<open>midi\<close> that is
  not negative: the semitone offset is \<open>midi - 69\<close>, and the mapper returns the
  entry of the twelve-entry chromatic table at index \<open>midi mod 12\<close> (the MIDI
  number, not the semitone offset, is reduced modulo 12), followed by the octave
  \<open>floor (midi / 12) - 1\<close>.  This holds for every implementation of
  \<^verbatim>\<open>Math.log2\<close>.
\<close>

theorem freqToNoteName_indexes_by_midi:
  assumes "0 < freq" and "midi_of impl (Fin freq) = Fin (of_int midi)" and "0 \<le> midi"
  shows "midi_of impl (Fin freq) =
           fl_add (Fin 69)
             (js_round (fl_mul (Fin 12) (js_log2 impl (fl_div (Fin freq) (Fin 440))))) \<and>
         semitones_of impl (Fin freq) = Fin (of_int (midi - 69)) \<and>
         freqToNoteName impl (Num (Fin freq)) =
           NOTE_NAMES ! nat (midi mod 12) @
           int_to_string (\<lfloor>real_of_int midi / 12\<rfloor> - 1)"
proof -
  obtain s :: int where s: "semitones_of impl (Fin freq) = Fin (of_int s)"
    and v: "real_of_int midi = of_int (69 + s)" and sb: "\<bar>s\<bar> \<le> 16385"
    using midi_of_Fin [OF assms(1,2)] by blast
  have ms: "midi = 69 + s" using v by (simp only: of_int_eq_iff)
  then have mb: "midi < 2 ^ 40" using sb by simp
  have p1: "midi_of impl (Fin freq) =
           fl_add (Fin 69)
             (js_round (fl_mul (Fin 12) (js_log2 impl (fl_div (Fin freq) (Fin 440)))))"
    by (simp add: midi_of_def semitones_of_def)
  have p2: "semitones_of impl (Fin freq) = Fin (of_int (midi - 69))"
    using s ms by simp
  have "js_rem midi 12 = midi mod 12" using assms(3) by (rule js_rem_nonneg)
  moreover have "note_at (i mod 12) = Some (NOTE_NAMES ! nat (i mod 12))" for i
    by (simp add: note_at_def NOTE_NAMES_def)
  ultimately have n: "note_at (js_rem midi 12) = Some (NOTE_NAMES ! nat (midi mod 12))"
    by simp
  have f: "\<lfloor>real_of_int midi / 12\<rfloor> = midi div 12"
    using floor_divide_of_int_eq [of midi 12] by simp
  have "note_name impl (Fin freq) =
          NOTE_NAMES ! nat (midi mod 12) @ int_to_string (midi div 12 - 1)"
    unfolding note_name_midi assms(2) js_remainder_int note_at_num_int n
      octave_exact [OF assms(3) mb]
    by (simp add: template_note_def number_to_string_def)
  then have p3: "freqToNoteName impl (Num (Fin freq)) =
           NOTE_NAMES ! nat (midi mod 12) @
           int_to_string (\<lfloor>real_of_int midi / 12\<rfloor> - 1)"
    using assms(1) f by simp
  show ?thesis by (intro conjI) (rule p1, rule p2, rule p3)
qed

theorem freqToNoteName_indexes_by_midi_witness:
  "(0::real) < 440 \<and> midi_of exact_log2 (Fin 440) = Fin 69 \<and>
   semitones_of exact_log2 (Fin 440) = Fin 0 \<and>
   freqToNoteName exact_log2 (Num (Fin 440)) = ''A4''"
  using freqToNoteName_indexes_by_midi [of 440 exact_log2 69]
  by (simp add: midi_440 NOTE_NAMES_def int_to_string_def nat_to_string.simps digit_char_def)

text \<open>
  C4 as the specification states it fails at 440 Hz: the semitone offset is 0, so a
  lookup at \<open>offset mod 12\<close> reads the letter C, while the program answers A4.
\<close>

theorem spec_offset_lookup_differs_at_440:
  "freqToNoteName exact_log2 (Num (Fin 440)) = ''A4'' \<and> spec_frequencyToNote 440 = ''C4''"
  by (simp add: name_440 spec_frequencyToNote_def show_simps)

text \<open>
  C7.  The mapper answers A4 at 440 Hz and A5 at 880 Hz, and the sentinel \<open>--\<close> for
  \<^verbatim>\<open>undefined\<close>, for NaN, for zero and for every other non-positive input; no
  input makes it raise.  This holds for every implementation of \<^verbatim>\<open>Math.log2\<close>.
\<close>

theorem freqToNoteName_a4_a5_sentinel:
  "freqToNoteName impl (Num (Fin 440)) = ''A4'' \<and> freqToNoteName impl (Num (Fin 880)) = ''A5'' \<and>
   freqToNoteName impl (Num (Fin 0)) = ''--'' \<and> freqToNoteName impl Undefined = ''--'' \<and>
   freqToNoteName impl (Num NaN) = ''--'' \<and> freqToNoteName impl (Num NegInf) = ''--'' \<and>
   freqToNoteName impl (Num NegZero) = ''--'' \<and>
   (\<forall>freq. freq \<le> 0 \<longrightarrow> freqToNoteName impl (Num (Fin freq)) = ''--'')"
  by (simp add: name_440 name_880)

theorem freqToNoteName_a4_a5_sentinel_witness:
  "freqToNoteName exact_log2 (Num (Fin (- 3))) = ''--'' \<and>
   freqToNoteName exact_log2 (Num (Fin 880)) = ''A5''"
  using freqToNoteName_a4_a5_sentinel [of exact_log2] by simp

text \<open>
  C9.  Whenever a positive frequency has a negative MIDI number that is not a
  multiple of 12, the remainder \<^verbatim>\<open>midi % 12\<close> is negative, the table lookup reads
  \<^verbatim>\<open>undefined\<close>, and the returned string is neither a note name with an octave
  nor the sentinel; such a frequency exists (6.875 Hz is one).  This holds for
  every implementation of \<^verbatim>\<open>Math.log2\<close>.
\<close>

theorem freqToNoteName_negative_index:
  "(\<forall>freq midi. 0 < freq \<and> midi_of impl (Fin freq) = Fin (of_int midi) \<and> midi < 0 \<and>
        midi mod 12 \<noteq> 0 \<longrightarrow>
      js_rem midi 12 < 0 \<and> note_at (js_rem midi 12) = None \<and>
      \<not> is_note_name (freqToNoteName impl (Num (Fin freq))) \<and>
      freqToNoteName impl (Num (Fin freq)) \<noteq> ''--'') \<and>
   (\<exists>freq midi. 0 < freq \<and> midi_of impl (Fin freq) = Fin (of_int midi) \<and> midi < 0 \<and>
        midi mod 12 \<noteq> 0)"
proof (rule conjI)
  show "\<forall>freq midi. 0 < freq \<and> midi_of impl (Fin freq) = Fin (of_int midi) \<and> midi < 0 \<and>
        midi mod 12 \<noteq> 0 \<longrightarrow>
      js_rem midi 12 < 0 \<and> note_at (js_rem midi 12) = None \<and>
      \<not> is_note_name (freqToNoteName impl (Num (Fin freq))) \<and>
      freqToNoteName impl (Num (Fin freq)) \<noteq> ''--''"
  proof (intro allI impI)
    fix freq :: real and midi :: int
    assume a: "0 < freq \<and> midi_of impl (Fin freq) = Fin (of_int midi) \<and> midi < 0 \<and>
        midi mod 12 \<noteq> 0"
    then obtain s where g: "js_rem midi 12 < 0"
      and n: "freqToNoteName impl (Num (Fin freq)) = ''undefined'' @ s"
      using freqToNoteName_below_table [of freq impl midi] by blast
    have "note_at (js_rem midi 12) = None" using g by (simp add: note_at_def)
    moreover have "\<not> is_note_name (freqToNoteName impl (Num (Fin freq)))"
      unfolding n by (rule undefined_not_note_name)
    moreover have "freqToNoteName impl (Num (Fin freq)) \<noteq> ''--''" unfolding n by simp
    ultimately show "js_rem midi 12 < 0 \<and> note_at (js_rem midi 12) = None \<and>
      \<not> is_note_name (freqToNoteName impl (Num (Fin freq))) \<and>
      freqToNoteName impl (Num (Fin freq)) \<noteq> ''--''"
      using g by blast
  qed
next
  have "0 < (55 / 8 :: real) \<and> midi_of impl (Fin (55 / 8)) = Fin (of_int (- 3)) \<and>
        (- 3 :: int) < 0 \<and> (- 3 :: int) mod 12 \<noteq> 0"
    by (simp add: midi_low)
  then show "\<exists>freq midi. 0 < freq \<and> midi_of impl (Fin freq) = Fin (of_int midi) \<and> midi < 0 \<and>
        midi mod 12 \<noteq> 0"
    by blast
qed

theorem freqToNoteName_negative_index_witness:
  "midi_of exact_log2 (Fin (55 / 8)) = Fin (- 3) \<and> js_rem (- 3) 12 = - 3 \<and>
   freqToNoteName exact_log2 (Num (Fin (55 / 8))) = ''undefined-2'' \<and>
   \<not> is_note_name (freqToNoteName exact_log2 (Num (Fin (55 / 8)))) \<and>
   freqToNoteName exact_log2 (Num (Fin (55 / 8))) \<noteq> ''--''"
proof -
  have "0 < (55 / 8 :: real) \<and> midi_of exact_log2 (Fin (55 / 8)) = Fin (of_int (- 3)) \<and>
        (- 3 :: int) < 0 \<and> (- 3 :: int) mod 12 \<noteq> 0"
    by (simp add: midi_low)
  then have "\<not> is_note_name (freqToNoteName exact_log2 (Num (Fin (55 / 8)))) \<and>
             freqToNoteName exact_log2 (Num (Fin (55 / 8))) \<noteq> ''--''"
    using freqToNoteName_negative_index [of exact_log2] by blast
  moreover have "js_rem (- 3) 12 = - 3" by (simp add: js_rem_def)
  moreover have "freqToNoteName exact_log2 (Num (Fin (55 / 8))) = ''undefined-2''"
    by (simp add: name_low)
  ultimately show ?thesis by (simp add: midi_low)
qed

section \<open>Properties of the band energy\<close>

lemma energy_loop_sum:
  "energy_loop arr stop i s = s + (\<Sum>k = i..<min stop (length arr). unat (arr ! k))"
proof (induction arr stop i s rule: energy_loop.induct)
  case (1 arr stop i s)
  show ?case
  proof (cases "i < stop \<and> i < length arr")
    case True
    then have "energy_loop arr stop i s = energy_loop arr stop (i + 1) (s + unat (arr ! i))"
      by (simp add: energy_loop.simps [of arr stop i])
    also have "\<dots> = s + unat (arr ! i) + (\<Sum>k = i + 1..<min stop (length arr). unat (arr ! k))"
      using 1 True by simp
    also have "\<dots> = s + (\<Sum>k = i..<min stop (length arr). unat (arr ! k))"
      using True by (simp add: sum.atLeast_Suc_lessThan)
    finally show ?thesis .
  next
    case False
    then show ?thesis by (auto simp add: energy_loop.simps [of arr stop i])
  qed
qed

lemma energy_eq:
  "start < stop \<Longrightarrow> energy arr (start, stop) =
     Fin (real (\<Sum>k = start..<min stop (length arr). unat (arr ! k)) / (real stop - real start))"
  by (simp add: energy_def energy_loop_sum)


lemma sum_low_bins:
  assumes z: "\<forall>i. 10 < i \<and> i < length arr \<longrightarrow> arr ! i = 0"
  shows "(\<Sum>k = 0..<min 64 (length arr). unat (arr ! k)) =
         (\<Sum>k = 0..<min 11 (length arr). unat (arr ! k))"
proof -
  have "(\<Sum>k = 0..<min 64 (length arr). unat (arr ! k)) =
        (\<Sum>k = 0..<min 11 (length arr). unat (arr ! k)) +
        (\<Sum>k = min 11 (length arr)..<min 64 (length arr). unat (arr ! k))"
    by (rule sum.atLeastLessThan_concat [symmetric]) simp_all
  moreover have "(\<Sum>k = min 11 (length arr)..<min 64 (length arr). unat (arr ! k)) = 0"
    using z by (intro sum.neutral) auto
  ultimately show ?thesis by simp
qed

lemma sum_zero_bins:
  assumes z: "\<forall>i. 10 < i \<and> i < length arr \<longrightarrow> arr ! i = 0" and "10 < start"
  shows "(\<Sum>k = start..<min stop (length arr). unat (arr ! k)) = 0"
  using assms by (intro sum.neutral) auto

lemma sum_peak_bound:
  assumes p: "\<forall>i. i < length arr \<longrightarrow> unat (arr ! i) \<le> peak"
  shows "(\<Sum>k = 0..<min 11 (length arr). unat (arr ! k)) \<le> 11 * peak"
proof -
  have "(\<Sum>k = 0..<min 11 (length arr). unat (arr ! k)) \<le> (\<Sum>k = 0..<min 11 (length arr). peak)"
    using p by (intro sum_mono) auto
  also have "\<dots> = min 11 (length arr) * peak" by simp
  also have "\<dots> \<le> 11 * peak" by (intro mult_le_mono1) simp
  finally show ?thesis .
qed

lemma low_bins_zero:
  "\<forall>i. 10 < i \<and> i < length low_bins_input \<longrightarrow> low_bins_input ! i = 0"
  by (auto simp add: low_bins_input_def nth_append)

lemma low_bins_peak:
  "\<forall>i. i < length low_bins_input \<longrightarrow> unat (low_bins_input ! i) \<le> 255"
  by (simp add: low_bins_input_def nth_append)

lemma low_bins_sum:
  "(\<Sum>k = 0..<min 11 (length low_bins_input). unat (low_bins_input ! k)) = 2805"
proof -
  have "(\<Sum>k = 0..<11. unat (low_bins_input ! k)) = (\<Sum>k = 0..<(11::nat). 255)"
    by (intro sum.cong) (simp_all add: low_bins_input_def nth_append)
  then show ?thesis by (simp add: low_bins_input_def)
qed

text \<open>
  C8 (as amended).  The three reported bands are BASS, MID and HIGH over the bin
  ranges (0, 64), (65, 256) and (257, 1024).  For every magnitude array that is zero
  outside bins 0 to 10 and whose entries are at most \<open>peak\<close>, the BASS energy is the
  sum of bins 0 to 10 divided by 64, hence at most 11/64 of the peak, and the MID
  and HIGH energies are exactly zero.
\<close>

theorem band_energy_low_bins:
  assumes z: "\<forall>i. 10 < i \<and> i < length arr \<longrightarrow> arr ! i = 0"
      and p: "\<forall>i. i < length arr \<longrightarrow> unat (arr ! i) \<le> peak"
  shows "bandData arr =
           [(''BASS'', energy arr (0, 64)), (''MID'', energy arr (65, 256)),
            (''HIGH'', energy arr (257, 1024))] \<and>
         energy arr BASS = Fin (real (\<Sum>k = 0..<min 11 (length arr). unat (arr ! k)) / 64) \<and>
         real (\<Sum>k = 0..<min 11 (length arr). unat (arr ! k)) / 64 \<le> 11 * real peak / 64 \<and>
         energy arr MID = Fin 0 \<and> energy arr HIGH = Fin 0"
proof -
  have b: "energy arr BASS = Fin (real (\<Sum>k = 0..<min 11 (length arr). unat (arr ! k)) / 64)"
    using sum_low_bins [OF z] by (simp add: BASS_def energy_eq)
  have "real (\<Sum>k = 0..<min 11 (length arr). unat (arr ! k)) \<le> real (11 * peak)"
    using sum_peak_bound [OF p] by (rule of_nat_mono)
  then have le: "real (\<Sum>k = 0..<min 11 (length arr). unat (arr ! k)) / 64 \<le> 11 * real peak / 64"
    by simp
  have m: "energy arr MID = Fin 0"
    using sum_zero_bins [OF z, of 65 256] by (simp add: MID_def energy_eq)
  have h: "energy arr HIGH = Fin 0"
    using sum_zero_bins [OF z, of 257 1024] by (simp add: HIGH_def energy_eq)
  have d: "bandData arr =
           [(''BASS'', energy arr (0, 64)), (''MID'', energy arr (65, 256)),
            (''HIGH'', energy arr (257, 1024))]"
    by (simp add: bandData_def bands_def BASS_def MID_def HIGH_def)
  show ?thesis using b le m h d by blast
qed

theorem band_energy_low_bins_witness:
  "energy low_bins_input BASS = Fin (2805 / 64) \<and> energy low_bins_input MID = Fin 0 \<and>
   energy low_bins_input HIGH = Fin 0"
  using band_energy_low_bins [OF low_bins_zero low_bins_peak] by (simp add: low_bins_sum)

text \<open>
  C8 as the specification states it fails: with the peak value 255 in each of the bins
  0 to 10 and silence elsewhere, the BASS energy is 2805/64 (about 43.8), less than a
  fifth of the peak.
\<close>

theorem band_energy_bass_far_below_peak:
  "energy low_bins_input BASS = Fin (2805 / 64) \<and> (2805 / 64 :: real) < 255 / 5"
proof -
  have "energy low_bins_input BASS =
        Fin (real (\<Sum>k = 0..<min 11 (length low_bins_input). unat (low_bins_input ! k)) / 64)"
    using sum_low_bins [OF low_bins_zero] by (simp add: BASS_def energy_eq)
  then show ?thesis by (simp add: low_bins_sum)
qed


section \<open>Properties of the WAV encoder\<close>

lemma length_pcm_bytes [simp]: "length (pcm_bytes xs) = 2 * length xs"
  by (induction xs) (simp_all add: pcm_bytes_def int16_le_def)

lemma update2_conv:
  "off + 2 \<le> length v \<Longrightarrow> v[off := a, off + 1 := b] = take off v @ [a, b] @ drop (off + 2) v"
proof -
  assume r: "off + 2 \<le> length v"
  have "v[off := a] = take off v @ a # drop (Suc off) v"
    using r by (intro upd_conv_take_nth_drop) simp
  then have "v[off := a, off + 1 := b] = (take off v @ a # drop (Suc off) v)[off + 1 := b]"
    by simp
  also have "\<dots> = take off v @ (a # drop (Suc off) v)[1 := b]"
    using r by (simp add: list_update_append)
  also have "(a # drop (Suc off) v)[1 := b] = a # (drop (Suc off) v)[0 := b]"
    by simp
  also have "(drop (Suc off) v)[0 := b] = b # drop (Suc (Suc off)) v"
    using r Cons_nth_drop_Suc [of "Suc off" v, symmetric] by simp
  finally show ?thesis by simp
qed

lemma write_samples_conv:
  "off + 2 * length xs \<le> length view \<Longrightarrow>
   write_samples view off xs = Inr (take off view @ pcm_bytes xs @ drop (off + 2 * length xs) view)"
proof (induction xs arbitrary: view off)
  case Nil
  then show ?case by (simp add: pcm_bytes_def)
next
  case (Cons x xs)
  define t where "t = to_integer (sample_to_pcm x)"
  define view' where "view' = view[off := of_int t, off + 1 := of_int (t div 256)]"
  have r: "off + 2 \<le> length view" using Cons.prems by simp
  have v': "view' = take off view @ int16_le t @ drop (off + 2) view"
    unfolding view'_def int16_le_def using update2_conv [OF r] by simp
  have s: "setInt16 view off (sample_to_pcm x) = Inr view'"
    using r by (simp add: setInt16_def view'_def t_def Let_def)
  have len: "length view' = length view" by (simp add: view'_def)
  have "write_samples view off (x # xs) = write_samples view' (off + 2) xs"
    by (simp add: s and_then_def)
  also have "\<dots> = Inr (take (off + 2) view' @ pcm_bytes xs @ drop (off + 2 + 2 * length xs) view')"
    using Cons.prems len by (intro Cons.IH) simp
  also have "take (off + 2) view' = take off view @ int16_le t"
    using r by (simp add: v' int16_le_def)
  also have "drop (off + 2 + 2 * length xs) view' = drop (off + 2 * length (x # xs)) view"
    using r by (simp add: v' int16_le_def ac_simps)
  finally show ?case by (simp add: pcm_bytes_def t_def)
qed

lemma update1_conv:
  "off + 1 \<le> length v \<Longrightarrow> v[off := a] = take off v @ [a] @ drop (off + 1) v"
  using upd_conv_take_nth_drop [of off v a] by simp

lemma update4_conv:
  assumes r: "off + 4 \<le> length v"
  shows "v[off := a, off + 1 := b, off + 2 := c, off + 3 := d] =
         take off v @ [a, b, c, d] @ drop (off + 4) v"
proof -
  have "v[off := a, off + 1 := b] = take off v @ [a, b] @ drop (off + 2) v"
    using r by (intro update2_conv) simp
  then have "v[off := a, off + 1 := b, off + 2 := c, off + 3 := d] =
        (take off v @ [a, b] @ drop (off + 2) v)[off + 2 := c, off + 2 + 1 := d]"
    by (simp add: numeral_3_eq_3 numeral_2_eq_2)
  also have "\<dots> = take (off + 2) (take off v @ [a, b] @ drop (off + 2) v) @ [c, d] @
                   drop (off + 2 + 2) (take off v @ [a, b] @ drop (off + 2) v)"
    using r by (intro update2_conv) simp
  also have "\<dots> = take off v @ [a, b, c, d] @ drop (off + 4) v"
  proof -
    have e: "Suc (Suc (Suc (Suc off))) = off + 4" by simp
    show ?thesis using r by (simp add: ac_simps e)
  qed
  finally show ?thesis .
qed

lemma setUint8_conv:
  "off + 1 \<le> length v \<Longrightarrow> setUint8 v off x = Inr (take off v @ [of_nat x] @ drop (off + 1) v)"
  using update1_conv [of off v] by (simp add: setUint8_def)

lemma setUint16_conv:
  "off + 2 \<le> length v \<Longrightarrow> setUint16 v off x = Inr (take off v @ u16_le x @ drop (off + 2) v)"
  using update2_conv [of off v] by (simp add: setUint16_def u16_le_def)

lemma setUint32_conv:
  "off + 4 \<le> length v \<Longrightarrow> setUint32 v off x = Inr (take off v @ u32_le x @ drop (off + 4) v)"
  using update4_conv [of off v] by (simp add: setUint32_def u32_le_def)

lemma writeString_conv:
  "off + length s \<le> length v \<Longrightarrow>
   writeString v off s = Inr (take off v @ tag_bytes s @ drop (off + length s) v)"
proof (induction s arbitrary: v off)
  case Nil
  then show ?case by (simp add: tag_bytes_def writeString.simps)
next
  case (Cons c cs)
  define v' where "v' = take off v @ [of_nat (of_char c)] @ drop (off + 1) v"
  have r: "off + 1 \<le> length v" using Cons.prems by simp
  have len: "length v' = length v" using r by (simp add: v'_def)
  have "writeString v off (c # cs) = writeString v' (off + 1) cs"
    using r by (simp add: setUint8_conv and_then_def v'_def writeString.simps)
  also have "\<dots> = Inr (take (off + 1) v' @ tag_bytes cs @ drop (off + 1 + length cs) v')"
    using Cons.prems len by (intro Cons.IH) simp
  also have "take (off + 1) v' = take off v @ [of_nat (of_char c)]"
    using r by (simp add: v'_def)
  also have "drop (off + 1 + length cs) v' = drop (off + length (c # cs)) v"
    using r by (simp add: v'_def ac_simps)
  finally show ?case by (simp add: tag_bytes_def)
qed

lemma length_u16_le [simp]: "length (u16_le v) = 2"
  by (simp add: u16_le_def)

lemma length_u32_le [simp]: "length (u32_le v) = 4"
  by (simp add: u32_le_def)

lemma length_tag_bytes [simp]: "length (tag_bytes s) = length s"
  by (simp add: tag_bytes_def)

lemma setUint16_at:
  "length h = off \<Longrightarrow> off + 2 \<le> length view \<Longrightarrow>
   setUint16 (h @ drop off view) off x = Inr ((h @ u16_le x) @ drop (off + 2) view)"
  by (simp add: setUint16_conv ac_simps)

lemma setUint32_at:
  "length h = off \<Longrightarrow> off + 4 \<le> length view \<Longrightarrow>
   setUint32 (h @ drop off view) off x = Inr ((h @ u32_le x) @ drop (off + 4) view)"
  by (simp add: setUint32_conv ac_simps)

lemma writeString_at:
  "length h = off \<Longrightarrow> length s = k \<Longrightarrow> off + k \<le> length view \<Longrightarrow>
   writeString (h @ drop off view) off s = Inr ((h @ tag_bytes s) @ drop (off + k) view)"
  by (simp add: writeString_conv ac_simps)

lemma write_header_conv:
  assumes v: "44 \<le> length view"
  shows "write_header view c r n = Inr (wav_header c r n @ drop 44 view)"
proof -
  define p1 where "p1 = tag_bytes ''RIFF''"
  define p2 where "p2 = p1 @ u32_le (36 + n * 2)"
  define p3 where "p3 = p2 @ tag_bytes ''WAVE''"
  define p4 where "p4 = p3 @ tag_bytes ''fmt ''"
  define p5 where "p5 = p4 @ u32_le 16"
  define p6 where "p6 = p5 @ u16_le 1"
  define p7 where "p7 = p6 @ u16_le c"
  define p8 where "p8 = p7 @ u32_le r"
  define p9 where "p9 = p8 @ u32_le (r * (c * 2))"
  define p10 where "p10 = p9 @ u16_le (c * 2)"
  define p11 where "p11 = p10 @ u16_le 16"
  define p12 where "p12 = p11 @ tag_bytes ''data''"
  define p13 where "p13 = p12 @ u32_le (n * 2)"
  have l1: "length p1 = 4" by (simp add: p1_def)
  have l2: "length p2 = 8" by (simp add: p2_def l1)
  have l3: "length p3 = 12" by (simp add: p3_def l2)
  have l4: "length p4 = 16" by (simp add: p4_def l3)
  have l5: "length p5 = 20" by (simp add: p5_def l4)
  have l6: "length p6 = 22" by (simp add: p6_def l5)
  have l7: "length p7 = 24" by (simp add: p7_def l6)
  have l8: "length p8 = 28" by (simp add: p8_def l7)
  have l9: "length p9 = 32" by (simp add: p9_def l8)
  have l10: "length p10 = 34" by (simp add: p10_def l9)
  have l11: "length p11 = 36" by (simp add: p11_def l10)
  have l12: "length p12 = 40" by (simp add: p12_def l11)
  have s1: "writeString view 0 ''RIFF'' = Inr (p1 @ drop 4 view)"
    using writeString_at [of "[]" 0 "''RIFF''" 4 view] v by (simp add: p1_def)
  have s2: "setUint32 (p1 @ drop 4 view) 4 (36 + n * 2) = Inr (p2 @ drop 8 view)"
    using setUint32_at [OF l1, of view] v by (simp add: p2_def)
  have s3: "writeString (p2 @ drop 8 view) 8 ''WAVE'' = Inr (p3 @ drop 12 view)"
    using writeString_at [OF l2, of "''WAVE''" 4 view] v by (simp add: p3_def)
  have s4: "writeString (p3 @ drop 12 view) 12 ''fmt '' = Inr (p4 @ drop 16 view)"
    using writeString_at [OF l3, of "''fmt ''" 4 view] v by (simp add: p4_def)
  have s5: "setUint32 (p4 @ drop 16 view) 16 16 = Inr (p5 @ drop 20 view)"
    using setUint32_at [OF l4, of view] v by (simp add: p5_def)
  have s6: "setUint16 (p5 @ drop 20 view) 20 1 = Inr (p6 @ drop 22 view)"
    using setUint16_at [OF l5, of view] v by (simp add: p6_def)
  have s7: "setUint16 (p6 @ drop 22 view) 22 c = Inr (p7 @ drop 24 view)"
    using setUint16_at [OF l6, of view] v by (simp add: p7_def)
  have s8: "setUint32 (p7 @ drop 24 view) 24 r = Inr (p8 @ drop 28 view)"
    using setUint32_at [OF l7, of view] v by (simp add: p8_def)
  have s9: "setUint32 (p8 @ drop 28 view) 28 (r * (c * 2)) = Inr (p9 @ drop 32 view)"
    using setUint32_at [OF l8, of view] v by (simp add: p9_def)
  have s10: "setUint16 (p9 @ drop 32 view) 32 (c * 2) = Inr (p10 @ drop 34 view)"
    using setUint16_at [OF l9, of view] v by (simp add: p10_def)
  have s11: "setUint16 (p10 @ drop 34 view) 34 16 = Inr (p11 @ drop 36 view)"
    using setUint16_at [OF l10, of view] v by (simp add: p11_def)
  have s12: "writeString (p11 @ drop 36 view) 36 ''data'' = Inr (p12 @ drop 40 view)"
    using writeString_at [OF l11, of "''data''" 4 view] v by (simp add: p12_def)
  have s13: "setUint32 (p12 @ drop 40 view) 40 (n * 2) = Inr (p13 @ drop 44 view)"
    using setUint32_at [OF l12, of view] v by (simp add: p13_def)
  have "write_header view c r n = Inr (p13 @ drop 44 view)"
    unfolding write_header_def
    by (simp only: s1 s2 s3 s4 s5 s6 s7 s8 s9 s10 s11 s12 s13 and_then_def sum.case)
  moreover have "p13 = wav_header c r n"
    by (simp add: wav_header_def p1_def p2_def p3_def p4_def p5_def p6_def p7_def p8_def
        p9_def p10_def p11_def p12_def p13_def)
  ultimately show ?thesis by simp
qed

lemma length_wav_header [simp]: "length (wav_header c r n) = 44"
  by (simp add: wav_header_def)

lemma length_concat_const:
  "(\<And>i. i < F \<Longrightarrow> length (f i) = C) \<Longrightarrow> length (concat (map f [0..<F])) = F * C"
  by (induction F) simp_all

lemma nth_concat_const:
  assumes "\<And>i. i < F \<Longrightarrow> length (f i) = C" and "i < F" and "c < C"
  shows "concat (map f [0..<F]) ! (i * C + c) = f i ! c"
  using assms
proof (induction F arbitrary: i)
  case 0
  then show ?case by simp
next
  case (Suc F)
  have len: "length (concat (map f [0..<F])) = F * C"
    using Suc.prems(1) by (intro length_concat_const) simp
  show ?case
  proof (cases "i < F")
    case True
    have "i * C + c < i * C + C" using Suc.prems(3) by simp
    also have "\<dots> = Suc i * C" by simp
    also have "\<dots> \<le> F * C" using True by (intro mult_le_mono1) simp
    finally have "i * C + c < F * C" .
    then have "concat (map f [0..<Suc F]) ! (i * C + c) = concat (map f [0..<F]) ! (i * C + c)"
      by (simp add: nth_append len)
    also have "\<dots> = f i ! c"
      using Suc.prems True by (intro Suc.IH) simp_all
    finally show ?thesis .
  next
    case False
    then have "i = F" using Suc.prems(2) by simp
    then show ?thesis using nth_append_length_plus [of "concat (map f [0..<F])" "f F" c]
      by (simp add: len)
  qed
qed

lemma length_interleaved: "length (interleaved b) = frames b * numberOfChannels b"
  unfolding interleaved_def by (intro length_concat_const) simp

lemma nth_interleaved:
  "i < frames b \<Longrightarrow> ch < numberOfChannels b \<Longrightarrow>
   interleaved b ! (i * numberOfChannels b + ch) = channel_sample b ch i"
proof -
  assume i: "i < frames b" and c: "ch < numberOfChannels b"
  have "concat (map (\<lambda>i. map (\<lambda>ch. channel_sample b ch i) [0..<numberOfChannels b]) [0..<frames b]) !
          (i * numberOfChannels b + ch) =
        map (\<lambda>ch. channel_sample b ch i) [0..<numberOfChannels b] ! ch"
    using i c by (intro nth_concat_const) simp_all
  then show ?thesis using c by (simp add: interleaved_def)
qed

lemma unat_byte_of_int: "unat (of_int t :: 8 word) = nat (t mod 256)"
  by (simp add: unat_eq_nat_uint uint_word_of_int)

lemma unat_byte_of_nat: "unat (of_nat v :: 8 word) = v mod 256"
  by (simp add: unat_of_nat)

lemma int16_roundtrip:
  assumes "- 32768 \<le> t" and "t < 32768"
  shows "(let u = int (nat (t mod 256) + 256 * nat (t div 256 mod 256))
          in if u < 32768 then u else u - 65536) = t"
proof -
  have m: "t mod 65536 = 256 * (t div 256 mod 256) + t mod 256"
    using zmod_zmult2_eq [of 256 t 256] by simp
  have u: "int (nat (t mod 256) + 256 * nat (t div 256 mod 256)) = t mod 65536"
    by (simp add: m)
  show ?thesis
  proof (cases "0 \<le> t")
    case True
    then have "t mod 65536 = t" using assms by simp
    then show ?thesis using assms unfolding Let_def u by simp
  next
    case False
    have "(t + 65536) mod 65536 = t + 65536"
      using False assms by (intro mod_pos_pos_trivial) simp_all
    then have "t mod 65536 = t + 65536" by simp
    then show ?thesis using False assms unfolding Let_def u by simp
  qed
qed

lemma pcm_bytes_Cons:
  "pcm_bytes (x # xs) =
     of_int (to_integer (sample_to_pcm x)) # of_int (to_integer (sample_to_pcm x) div 256) #
     pcm_bytes xs"
  by (simp add: pcm_bytes_def int16_le_def)

lemma nth_pcm_bytes:
  "k < length xs \<Longrightarrow>
   pcm_bytes xs ! (2 * k) = of_int (to_integer (sample_to_pcm (xs ! k))) \<and>
   pcm_bytes xs ! (2 * k + 1) = of_int (to_integer (sample_to_pcm (xs ! k)) div 256)"
proof (induction xs arbitrary: k)
  case Nil
  then show ?case by simp
next
  case (Cons x xs)
  show ?case
  proof (cases k)
    case 0
    then show ?thesis by (simp add: pcm_bytes_Cons)
  next
    case (Suc j)
    then have "j < length xs" using Cons.prems by simp
    from Cons.IH [OF this] show ?thesis by (simp add: pcm_bytes_Cons Suc)
  qed
qed

lemma sample_to_pcm_Fin_if:
  "sample_to_pcm (Fin x) =
     (if max (- 1) (min 1 x) < 0 then Fin (max (- 1) (min 1 x) * 32768)
      else Fin (max (- 1) (min 1 x) * 32767))"
  unfolding sample_to_pcm_def
  by (simp only: js_min.simps js_max.simps js_lt.simps js_mul.simps Let_def)

lemma sample_to_pcm_Fin:
  "to_integer (sample_to_pcm (Fin x)) =
     js_trunc (let s = max (- 1) (min 1 x) in if s < 0 then s * 32768 else s * 32767)"
proof -
  define s where "s = max (- 1) (min 1 x)"
  have "sample_to_pcm (Fin x) = (if s < 0 then Fin (s * 32768) else Fin (s * 32767))"
    unfolding s_def by (rule sample_to_pcm_Fin_if)
  then have "to_integer (sample_to_pcm (Fin x)) =
             js_trunc (if s < 0 then s * 32768 else s * 32767)"
    by (simp add: to_integer_def)
  then show ?thesis unfolding s_def Let_def .
qed

lemma js_trunc_range:
  assumes "- 32768 \<le> r" and "r \<le> 32767"
  shows "- 32768 \<le> js_trunc r \<and> js_trunc r < 32768"
proof (cases "r < 0")
  case True
  have "\<lceil>- 32768 :: real\<rceil> \<le> \<lceil>r\<rceil>" using assms(1) by (rule ceiling_mono)
  moreover have "\<lceil>r\<rceil> \<le> 0" using True by (simp add: ceiling_le_iff)
  ultimately show ?thesis using True by (simp add: js_trunc_def)
next
  case False
  have "\<lfloor>r\<rfloor> \<le> \<lfloor>32767 :: real\<rfloor>" using assms(2) by (rule floor_mono)
  moreover have "0 \<le> \<lfloor>r\<rfloor>" using False by simp
  ultimately show ?thesis using False by (simp add: js_trunc_def)
qed

lemma sample_to_pcm_range:
  "- 32768 \<le> to_integer (sample_to_pcm x) \<and> to_integer (sample_to_pcm x) < 32768"
proof (cases x)
  case (Fin r)
  define s where "s = max (- 1) (min 1 r)"
  have b: "- 1 \<le> s" "s \<le> 1" by (simp_all add: s_def)
  have "- 32768 \<le> (if s < 0 then s * 32768 else s * 32767) \<and>
        (if s < 0 then s * 32768 else s * 32767) \<le> 32767"
    using b by auto
  then have "- 32768 \<le> js_trunc (if s < 0 then s * 32768 else s * 32767) \<and>
             js_trunc (if s < 0 then s * 32768 else s * 32767) < 32768"
    by (intro js_trunc_range) simp_all
  moreover have "to_integer (sample_to_pcm (Fin r)) =
                 js_trunc (if s < 0 then s * 32768 else s * 32767)"
    unfolding s_def using sample_to_pcm_Fin [of r] unfolding Let_def .
  ultimately show ?thesis unfolding Fin by (simp only:)
qed (simp_all add: sample_to_pcm_def to_integer_def js_trunc_def)

lemma audioBufferToWav_conv:
  "audioBufferToWav b =
     Inr (wav_header (numberOfChannels b) (sampleRate b) (length (interleaved b)) @
          pcm_bytes (interleaved b))"
proof -
  define n where "n = length (interleaved b)"
  define view :: "8 word list" where "view = replicate (44 + n * 2) 0"
  define hv where "hv = wav_header (numberOfChannels b) (sampleRate b) n @ drop 44 view"
  have lv: "length view = 44 + n * 2" by (simp add: view_def)
  have h: "write_header view (numberOfChannels b) (sampleRate b) n = Inr hv"
    unfolding hv_def by (rule write_header_conv) (simp add: lv)
  have lh: "length hv = 44 + 2 * n" by (simp add: hv_def lv)
  have "write_samples hv 44 (interleaved b) =
        Inr (take 44 hv @ pcm_bytes (interleaved b) @ drop (44 + 2 * length (interleaved b)) hv)"
    by (rule write_samples_conv) (simp add: lh n_def)
  also have "take 44 hv = wav_header (numberOfChannels b) (sampleRate b) n"
    by (simp add: hv_def)
  also have "drop (44 + 2 * length (interleaved b)) hv = []"
    by (simp add: lh n_def)
  finally have w: "write_samples hv 44 (interleaved b) =
      Inr (wav_header (numberOfChannels b) (sampleRate b) n @ pcm_bytes (interleaved b))"
    by simp
  have "audioBufferToWav b =
        and_then (write_header view (numberOfChannels b) (sampleRate b) n)
          (\<lambda>view. write_samples view 44 (interleaved b))"
    by (simp add: audioBufferToWav_def Let_def view_def n_def)
  also have "\<dots> = Inr (wav_header (numberOfChannels b) (sampleRate b) n @ pcm_bytes (interleaved b))"
    by (simp add: h w and_then_def)
  finally show ?thesis unfolding n_def .
qed

lemma le16_mod: "v mod 256 + 256 * (v div 256 mod 256) = (v::nat) mod 65536"
  using mod_mult2_eq [of v 256 256] by simp

lemma le32_mod:
  "v mod 256 + 256 * (v div 256 mod 256) + 65536 * (v div 65536 mod 256) +
   16777216 * (v div 16777216 mod 256) = (v::nat) mod 4294967296"
proof -
  have a: "v mod 4294967296 = 65536 * (v div 65536 mod 65536) + v mod 65536"
    using mod_mult2_eq [of v 65536 65536] by simp
  have b: "v div 65536 mod 65536 = (v div 65536) mod 256 + 256 * (v div 65536 div 256 mod 256)"
    using le16_mod [of "v div 65536"] by simp
  have c: "v div 65536 div 256 = v div 16777216"
    by (simp add: div_mult2_eq [symmetric])
  show ?thesis using a b c le16_mod [of v] by simp
qed

lemma nth_mid:
  "k < length xs \<Longrightarrow> (h @ xs @ rest) ! (length h + k) = xs ! k"
  by (simp add: nth_append)

lemma read_u16_at:
  "length h = off \<Longrightarrow> read_u16 (h @ u16_le v @ rest) off = v mod 65536"
proof -
  assume l: "length h = off"
  have "(h @ u16_le v @ rest) ! (length h + 0) = u16_le v ! 0"
       "(h @ u16_le v @ rest) ! (length h + 1) = u16_le v ! 1"
    by (rule nth_mid, simp)+
  then show ?thesis
    using l by (simp add: read_u16_def u16_le_def unat_byte_of_nat le16_mod)
qed

lemma read_u32_at:
  "length h = off \<Longrightarrow> read_u32 (h @ u32_le v @ rest) off = v mod 4294967296"
proof -
  assume l: "length h = off"
  have "(h @ u32_le v @ rest) ! (length h + 0) = u32_le v ! 0"
       "(h @ u32_le v @ rest) ! (length h + 1) = u32_le v ! 1"
       "(h @ u32_le v @ rest) ! (length h + 2) = u32_le v ! 2"
       "(h @ u32_le v @ rest) ! (length h + 3) = u32_le v ! 3"
    by (rule nth_mid, simp)+
  then show ?thesis
    using l by (simp add: read_u32_def u32_le_def unat_byte_of_nat le32_mod)
qed

lemma read_tag_at:
  "length h = off \<Longrightarrow> length s = 4 \<Longrightarrow> read_tag (h @ tag_bytes s @ rest) off = tag_bytes s"
proof -
  assume l: "length h = off" and s: "length s = 4"
  have n: "(h @ tag_bytes s @ rest) ! (length h + k) = tag_bytes s ! k" if "k < 4" for k
    using that s by (intro nth_mid) simp
  have "tag_bytes s = [tag_bytes s ! 0, tag_bytes s ! 1, tag_bytes s ! 2, tag_bytes s ! 3]"
    using s by (intro nth_equalityI) (auto simp add: less_Suc_eq numeral_eq_Suc nth_Cons')
  then show ?thesis
    using l n [of 0] n [of 1] n [of 2] n [of 3] by (simp add: read_tag_def)
qed

lemma header_fields:
  fixes d :: "8 word list" and c r n :: nat
  defines "bytes \<equiv> wav_header c r n @ d"
  shows "read_tag bytes 0 = tag_bytes ''RIFF'' \<and>
         read_u32 bytes 4 = (36 + n * 2) mod 4294967296 \<and>
         read_tag bytes 8 = tag_bytes ''WAVE'' \<and>
         read_tag bytes 12 = tag_bytes ''fmt '' \<and>
         read_u32 bytes 16 = 16 \<and>
         read_u16 bytes 20 = 1 \<and>
         read_u16 bytes 22 = c mod 65536 \<and>
         read_u32 bytes 24 = r mod 4294967296 \<and>
         read_u32 bytes 28 = (r * (c * 2)) mod 4294967296 \<and>
         read_u16 bytes 32 = (c * 2) mod 65536 \<and>
         read_u16 bytes 34 = 16 \<and>
         read_tag bytes 36 = tag_bytes ''data'' \<and>
         read_u32 bytes 40 = (n * 2) mod 4294967296"
proof -
  define p1 where "p1 = tag_bytes ''RIFF''"
  define p2 where "p2 = p1 @ u32_le (36 + n * 2)"
  define p3 where "p3 = p2 @ tag_bytes ''WAVE''"
  define p4 where "p4 = p3 @ tag_bytes ''fmt ''"
  define p5 where "p5 = p4 @ u32_le 16"
  define p6 where "p6 = p5 @ u16_le 1"
  define p7 where "p7 = p6 @ u16_le c"
  define p8 where "p8 = p7 @ u32_le r"
  define p9 where "p9 = p8 @ u32_le (r * (c * 2))"
  define p10 where "p10 = p9 @ u16_le (c * 2)"
  define p11 where "p11 = p10 @ u16_le 16"
  define p12 where "p12 = p11 @ tag_bytes ''data''"
  note ps = p1_def p2_def p3_def p4_def p5_def p6_def p7_def p8_def p9_def p10_def p11_def
    p12_def
  have l1: "length p1 = 4" by (simp add: p1_def)
  have l2: "length p2 = 8" by (simp add: p2_def l1)
  have l3: "length p3 = 12" by (simp add: p3_def l2)
  have l4: "length p4 = 16" by (simp add: p4_def l3)
  have l5: "length p5 = 20" by (simp add: p5_def l4)
  have l6: "length p6 = 22" by (simp add: p6_def l5)
  have l7: "length p7 = 24" by (simp add: p7_def l6)
  have l8: "length p8 = 28" by (simp add: p8_def l7)
  have l9: "length p9 = 32" by (simp add: p9_def l8)
  have l10: "length p10 = 34" by (simp add: p10_def l9)
  have l11: "length p11 = 36" by (simp add: p11_def l10)
  have l12: "length p12 = 40" by (simp add: p12_def l11)
  have e1: "bytes = [] @ tag_bytes ''RIFF'' @ (u32_le (36 + n * 2) @ tag_bytes ''WAVE'' @
     tag_bytes ''fmt '' @ u32_le 16 @ u16_le 1 @ u16_le c @ u32_le r @
     u32_le (r * (c * 2)) @ u16_le (c * 2) @ u16_le 16 @ tag_bytes ''data'' @ u32_le (n * 2) @ d)"
    by (simp add: bytes_def wav_header_def)
  have e2: "bytes = p1 @ u32_le (36 + n * 2) @ (tag_bytes ''WAVE'' @
     tag_bytes ''fmt '' @ u32_le 16 @ u16_le 1 @ u16_le c @ u32_le r @
     u32_le (r * (c * 2)) @ u16_le (c * 2) @ u16_le 16 @ tag_bytes ''data'' @ u32_le (n * 2) @ d)"
    by (simp add: bytes_def wav_header_def ps)
  have e3: "bytes = p2 @ tag_bytes ''WAVE'' @ (tag_bytes ''fmt '' @ u32_le 16 @ u16_le 1 @
     u16_le c @ u32_le r @ u32_le (r * (c * 2)) @ u16_le (c * 2) @ u16_le 16 @
     tag_bytes ''data'' @ u32_le (n * 2) @ d)"
    by (simp add: bytes_def wav_header_def ps)
  have e4: "bytes = p3 @ tag_bytes ''fmt '' @ (u32_le 16 @ u16_le 1 @
     u16_le c @ u32_le r @ u32_le (r * (c * 2)) @ u16_le (c * 2) @ u16_le 16 @
     tag_bytes ''data'' @ u32_le (n * 2) @ d)"
    by (simp add: bytes_def wav_header_def ps)
  have e5: "bytes = p4 @ u32_le 16 @ (u16_le 1 @
     u16_le c @ u32_le r @ u32_le (r * (c * 2)) @ u16_le (c * 2) @ u16_le 16 @
     tag_bytes ''data'' @ u32_le (n * 2) @ d)"
    by (simp add: bytes_def wav_header_def ps)
  have e6: "bytes = p5 @ u16_le 1 @ (u16_le c @ u32_le r @ u32_le (r * (c * 2)) @
     u16_le (c * 2) @ u16_le 16 @ tag_bytes ''data'' @ u32_le (n * 2) @ d)"
    by (simp add: bytes_def wav_header_def ps)
  have e7: "bytes = p6 @ u16_le c @ (u32_le r @ u32_le (r * (c * 2)) @
     u16_le (c * 2) @ u16_le 16 @ tag_bytes ''data'' @ u32_le (n * 2) @ d)"
    by (simp add: bytes_def wav_header_def ps)
  have e8: "bytes = p7 @ u32_le r @ (u32_le (r * (c * 2)) @
     u16_le (c * 2) @ u16_le 16 @ tag_bytes ''data'' @ u32_le (n * 2) @ d)"
    by (simp add: bytes_def wav_header_def ps)
  have e9: "bytes = p8 @ u32_le (r * (c * 2)) @
     (u16_le (c * 2) @ u16_le 16 @ tag_bytes ''data'' @ u32_le (n * 2) @ d)"
    by (simp add: bytes_def wav_header_def ps)
  have e10: "bytes = p9 @ u16_le (c * 2) @ (u16_le 16 @ tag_bytes ''data'' @ u32_le (n * 2) @ d)"
    by (simp add: bytes_def wav_header_def ps)
  have e11: "bytes = p10 @ u16_le 16 @ (tag_bytes ''data'' @ u32_le (n * 2) @ d)"
    by (simp add: bytes_def wav_header_def ps)
  have e12: "bytes = p11 @ tag_bytes ''data'' @ (u32_le (n * 2) @ d)"
    by (simp add: bytes_def wav_header_def ps)
  have e13: "bytes = p12 @ u32_le (n * 2) @ d"
    by (simp add: bytes_def wav_header_def ps)
  have "read_tag bytes 0 = tag_bytes ''RIFF''"
    by (subst e1, rule read_tag_at) simp_all
  moreover have "read_u32 bytes 4 = (36 + n * 2) mod 4294967296"
    by (subst e2, rule read_u32_at) (rule l1)
  moreover have "read_tag bytes 8 = tag_bytes ''WAVE''"
    by (subst e3, rule read_tag_at) (simp_all add: l2)
  moreover have "read_tag bytes 12 = tag_bytes ''fmt ''"
    by (subst e4, rule read_tag_at) (simp_all add: l3)
  moreover have "read_u32 bytes 16 = 16"
    using read_u32_at [OF l4, of 16] by (subst e5) simp
  moreover have "read_u16 bytes 20 = 1"
    using read_u16_at [OF l5, of 1] by (subst e6) simp
  moreover have "read_u16 bytes 22 = c mod 65536"
    by (subst e7, rule read_u16_at) (rule l6)
  moreover have "read_u32 bytes 24 = r mod 4294967296"
    by (subst e8, rule read_u32_at) (rule l7)
  moreover have "read_u32 bytes 28 = (r * (c * 2)) mod 4294967296"
    by (subst e9, rule read_u32_at) (rule l8)
  moreover have "read_u16 bytes 32 = (c * 2) mod 65536"
    by (subst e10, rule read_u16_at) (rule l9)
  moreover have "read_u16 bytes 34 = 16"
    using read_u16_at [OF l10, of 16] by (subst e11) simp
  moreover have "read_tag bytes 36 = tag_bytes ''data''"
    by (subst e12, rule read_tag_at) (simp_all add: l11)
  moreover have "read_u32 bytes 40 = (n * 2) mod 4294967296"
    by (subst e13, rule read_u32_at) (rule l12)
  ultimately show ?thesis by blast
qed

lemma read_i16_sample:
  assumes k: "k < length xs" and h: "length h = 44"
  shows "read_i16 (h @ pcm_bytes xs) (44 + 2 * k) = to_integer (sample_to_pcm (xs ! k))"
proof -
  define t where "t = to_integer (sample_to_pcm (xs ! k))"
  have a: "(h @ pcm_bytes xs) ! (44 + 2 * k) = of_int t"
    using nth_append_length_plus [of h "pcm_bytes xs" "2 * k"] nth_pcm_bytes [OF k]
    by (simp add: h t_def)
  have b: "(h @ pcm_bytes xs) ! (44 + 2 * k + 1) = of_int (t div 256)"
    using nth_append_length_plus [of h "pcm_bytes xs" "2 * k + 1"] nth_pcm_bytes [OF k]
    by (simp add: h t_def)
  have r: "- 32768 \<le> t \<and> t < 32768" unfolding t_def by (rule sample_to_pcm_range)
  have "read_i16 (h @ pcm_bytes xs) (44 + 2 * k) =
        (let u = int (nat (t mod 256) + 256 * nat (t div 256 mod 256))
          in if u < 32768 then u else u - 65536)"
    unfolding read_i16_def read_u16_def a b unat_byte_of_int ..
  also have "\<dots> = t" using r by (intro int16_roundtrip) simp_all
  finally show ?thesis unfolding t_def .
qed

lemma valid_channel_sample:
  "valid_buffer b \<Longrightarrow> ch < numberOfChannels b \<Longrightarrow> i < frames b \<Longrightarrow>
   channel_sample b ch i = channelData b ! ch ! i"
  by (simp add: valid_buffer_def channel_sample_def numberOfChannels_def list_all_length)

text \<open>
  C2.  Encoding never fails.  The output is 44 header bytes followed by the data
  sub-chunk, two little-endian bytes per sample in interleaved order: the tags RIFF,
  WAVE, \<open>fmt\<close> and \<open>data\<close>, format 1 (linear PCM), 16 bits per sample, the channel
  count and the sample rate of the buffer, the RIFF size 36 plus the data byte count
  and the data size \<open>frames * channels * 2\<close>, which is the number of bytes that
  follow the header.  The size, channel and rate fields hold the exact values
  whenever these fit their 32 or 16 bits.  Each sample is clamped to \<open>[-1, 1]\<close>,
  scaled by 32768 when negative and by 32767 otherwise, and truncated.
\<close>

theorem audioBufferToWav_layout:
  "(\<exists>bytes. audioBufferToWav b = Inr bytes \<and>
      length bytes = 44 + 2 * (frames b * numberOfChannels b) \<and>
      drop 44 bytes = pcm_bytes (interleaved b) \<and>
      read_tag bytes 0 = tag_bytes ''RIFF'' \<and> read_tag bytes 8 = tag_bytes ''WAVE'' \<and>
      read_tag bytes 12 = tag_bytes ''fmt '' \<and> read_u32 bytes 16 = 16 \<and>
      read_u16 bytes 20 = 1 \<and> read_u16 bytes 34 = 16 \<and>
      read_tag bytes 36 = tag_bytes ''data'' \<and>
      (36 + 2 * (frames b * numberOfChannels b) < 2 ^ 32 \<longrightarrow>
         read_u32 bytes 4 = 36 + 2 * (frames b * numberOfChannels b) \<and>
         read_u32 bytes 40 = 2 * (frames b * numberOfChannels b)) \<and>
      (numberOfChannels b < 2 ^ 16 \<longrightarrow> read_u16 bytes 22 = numberOfChannels b) \<and>
      (sampleRate b < 2 ^ 32 \<longrightarrow> read_u32 bytes 24 = sampleRate b) \<and>
      (\<forall>i ch. valid_buffer b \<and> i < frames b \<and> ch < numberOfChannels b \<longrightarrow>
         read_i16 bytes (44 + 2 * (i * numberOfChannels b + ch)) =
           to_integer (sample_to_pcm (channelData b ! ch ! i)))) \<and>
   (\<forall>x. to_integer (sample_to_pcm (Fin x)) =
      js_trunc (let s = max (- 1) (min 1 x) in if s < 0 then s * 32768 else s * 32767))"
proof (intro conjI allI)
  define n where "n = length (interleaved b)"
  define c where "c = numberOfChannels b"
  define bytes where "bytes = wav_header c (sampleRate b) n @ pcm_bytes (interleaved b)"
  have n: "n = frames b * c" by (simp add: n_def c_def length_interleaved)
  have enc: "audioBufferToWav b = Inr bytes"
    unfolding bytes_def n_def c_def by (rule audioBufferToWav_conv)
  have len: "length bytes = 44 + 2 * (frames b * c)"
    by (simp add: bytes_def n [symmetric] n_def)
  have data: "drop 44 bytes = pcm_bytes (interleaved b)"
    by (simp add: bytes_def)
  note f = header_fields [of c "sampleRate b" n "pcm_bytes (interleaved b)", folded bytes_def]
  have size: "read_u32 bytes 4 = 36 + 2 * (frames b * c) \<and> read_u32 bytes 40 = 2 * (frames b * c)"
    if "36 + 2 * (frames b * c) < 2 ^ 32"
    using f that by (simp add: n mult.commute)
  have chans: "read_u16 bytes 22 = c" if "c < 2 ^ 16"
    using f that by simp
  have rate: "read_u32 bytes 24 = sampleRate b" if "sampleRate b < 2 ^ 32"
    using f that by simp
  have smp: "read_i16 bytes (44 + 2 * (i * c + ch)) = to_integer (sample_to_pcm (channelData b ! ch ! i))"
    if "valid_buffer b \<and> i < frames b \<and> ch < c" for i ch
  proof -
    have k: "i * c + ch < length (interleaved b)"
    proof -
      have "i * c + ch < i * c + c" using that by simp
      also have "\<dots> = Suc i * c" by simp
      also have "\<dots> \<le> frames b * c" using that by (intro mult_le_mono1) simp
      finally show ?thesis by (simp add: length_interleaved c_def)
    qed
    have "read_i16 bytes (44 + 2 * (i * c + ch)) =
          to_integer (sample_to_pcm (interleaved b ! (i * c + ch)))"
      unfolding bytes_def using k by (intro read_i16_sample) simp_all
    also have "interleaved b ! (i * c + ch) = channel_sample b ch i"
      unfolding c_def using that by (intro nth_interleaved) (simp_all add: c_def)
    also have "\<dots> = channelData b ! ch ! i"
      using that by (intro valid_channel_sample) (simp_all add: c_def)
    finally show ?thesis .
  qed
  show "\<exists>bytes. audioBufferToWav b = Inr bytes \<and>
      length bytes = 44 + 2 * (frames b * numberOfChannels b) \<and>
      drop 44 bytes = pcm_bytes (interleaved b) \<and>
      read_tag bytes 0 = tag_bytes ''RIFF'' \<and> read_tag bytes 8 = tag_bytes ''WAVE'' \<and>
      read_tag bytes 12 = tag_bytes ''fmt '' \<and> read_u32 bytes 16 = 16 \<and>
      read_u16 bytes 20 = 1 \<and> read_u16 bytes 34 = 16 \<and>
      read_tag bytes 36 = tag_bytes ''data'' \<and>
      (36 + 2 * (frames b * numberOfChannels b) < 2 ^ 32 \<longrightarrow>
         read_u32 bytes 4 = 36 + 2 * (frames b * numberOfChannels b) \<and>
         read_u32 bytes 40 = 2 * (frames b * numberOfChannels b)) \<and>
      (numberOfChannels b < 2 ^ 16 \<longrightarrow> read_u16 bytes 22 = numberOfChannels b) \<and>
      (sampleRate b < 2 ^ 32 \<longrightarrow> read_u32 bytes 24 = sampleRate b) \<and>
      (\<forall>i ch. valid_buffer b \<and> i < frames b \<and> ch < numberOfChannels b \<longrightarrow>
         read_i16 bytes (44 + 2 * (i * numberOfChannels b + ch)) =
           to_integer (sample_to_pcm (channelData b ! ch ! i)))"
    unfolding c_def [symmetric]
    using enc len data f size chans rate smp by (intro exI [of _ bytes]) blast
next
  fix x
  show "to_integer (sample_to_pcm (Fin x)) =
      js_trunc (let s = max (- 1) (min 1 x) in if s < 0 then s * 32768 else s * 32767)"
    by (rule sample_to_pcm_Fin)
qed

lemma wav_example_shape:
  "valid_buffer wav_example" "frames wav_example = 2" "numberOfChannels wav_example = 2"
  "sampleRate wav_example = 44100"
  by (simp_all add: wav_example_def valid_buffer_def numberOfChannels_def)

theorem audioBufferToWav_layout_witness:
  "\<exists>bytes. audioBufferToWav wav_example = Inr bytes \<and> length bytes = 52 \<and>
     read_u32 bytes 4 = 44 \<and> read_u16 bytes 22 = 2 \<and> read_u32 bytes 24 = 44100 \<and>
     read_u32 bytes 40 = 8 \<and> read_i16 bytes 44 = 16383 \<and> read_i16 bytes 46 = 32767 \<and>
     read_i16 bytes 48 = - 32768 \<and> read_i16 bytes 50 = - 8192"
proof -
  from audioBufferToWav_layout [of wav_example]
  obtain bytes where b: "audioBufferToWav wav_example = Inr bytes"
    "length bytes = 44 + 2 * (frames wav_example * numberOfChannels wav_example)"
    "36 + 2 * (frames wav_example * numberOfChannels wav_example) < 2 ^ 32 \<longrightarrow>
       read_u32 bytes 4 = 36 + 2 * (frames wav_example * numberOfChannels wav_example) \<and>
       read_u32 bytes 40 = 2 * (frames wav_example * numberOfChannels wav_example)"
    "numberOfChannels wav_example < 2 ^ 16 \<longrightarrow> read_u16 bytes 22 = numberOfChannels wav_example"
    "sampleRate wav_example < 2 ^ 32 \<longrightarrow> read_u32 bytes 24 = sampleRate wav_example"
    "\<And>i ch. valid_buffer wav_example \<and> i < frames wav_example \<and> ch < numberOfChannels wav_example \<longrightarrow>
         read_i16 bytes (44 + 2 * (i * numberOfChannels wav_example + ch)) =
           to_integer (sample_to_pcm (channelData wav_example ! ch ! i))"
    by blast
  have "read_i16 bytes 44 = 16383"
    using b(6) [of 0 0] by (simp add: wav_example_shape) (simp add: wav_example_def sample_to_pcm_Fin js_trunc_def)
  moreover have "read_i16 bytes 46 = 32767"
    using b(6) [of 0 1] by (simp add: wav_example_shape) (simp add: wav_example_def sample_to_pcm_Fin js_trunc_def)
  moreover have "read_i16 bytes 48 = - 32768"
    using b(6) [of 1 0] by (simp add: wav_example_shape) (simp add: wav_example_def sample_to_pcm_Fin js_trunc_def)
  moreover have "read_i16 bytes 50 = - 8192"
    using b(6) [of 1 1] by (simp add: wav_example_shape) (simp add: wav_example_def sample_to_pcm_Fin js_trunc_def)
  ultimately show ?thesis
    using b(1-5) by (intro exI [of _ bytes]) (simp add: wav_example_shape)
qed

section \<open>Properties of the MP3 encoder\<close>

lemma chunk_index_less: "k < chunk_count xs \<longleftrightarrow> 1152 * k < length xs"
  unfolding chunk_count_def by arith

lemma run_codec_append:
  "run_codec codec s (as @ bs) =
     (case run_codec codec s as of (outs, s') \<Rightarrow>
        (case run_codec codec s' bs of (outs', s'') \<Rightarrow> (outs @ outs', s'')))"
  by (induction as arbitrary: s) (simp_all split: prod.splits)

lemma encode_chunks_run:
  "k \<le> chunk_count left \<Longrightarrow>
   encode_chunks codec nc left right (1152 * k) enc calls data =
     (snd (run_codec codec enc (map (chunk_call nc left right) [k..<chunk_count left])),
      calls @ map (chunk_call nc left right) [k..<chunk_count left],
      data @ filter (\<lambda>f. f \<noteq> [])
        (fst (run_codec codec enc (map (chunk_call nc left right) [k..<chunk_count left]))))"
proof (induction "chunk_count left - k" arbitrary: k enc calls data)
  case 0
  then have k: "k = chunk_count left" by simp
  then have "\<not> 1152 * k < length left" using chunk_index_less [of k left] by simp
  then show ?case by (subst encode_chunks.simps) (simp add: k)
next
  case (Suc m)
  then have lt: "k < chunk_count left" by simp
  then have i: "1152 * k < length left" by (simp add: chunk_index_less)
  have up: "[k..<chunk_count left] = k # [Suc k..<chunk_count left]"
    using lt by (simp add: upt_conv_Cons)
  obtain out enc' where st: "codec_step codec enc (chunk_call nc left right k) = (out, enc')"
    by (cases "codec_step codec enc (chunk_call nc left right k)")
  have st': "(if nc = 2 then encodeBuffer2 codec enc (take 1152 (drop (1152 * k) left))
                 (take 1152 (drop (1152 * k) right))
             else encodeBuffer1 codec enc (take 1152 (drop (1152 * k) left))) = (out, enc')"
    using st by (simp add: codec_step_def chunk_call_def chunk_def split: if_splits)
  have call: "(if nc = 2 then EncodeStereo (take 1152 (drop (1152 * k) left))
                 (take 1152 (drop (1152 * k) right))
             else EncodeMono (take 1152 (drop (1152 * k) left))) = chunk_call nc left right k"
    by (simp add: chunk_call_def chunk_def)
  have "encode_chunks codec nc left right (1152 * k) enc calls data =
        encode_chunks codec nc left right (1152 * Suc k) enc' (calls @ [chunk_call nc left right k])
          (if length out > 0 then data @ [out] else data)"
    using i by (subst encode_chunks.simps) (simp add: Let_def st' call add.commute)
  also have "\<dots> =
     (snd (run_codec codec enc' (map (chunk_call nc left right) [Suc k..<chunk_count left])),
      (calls @ [chunk_call nc left right k]) @ map (chunk_call nc left right) [Suc k..<chunk_count left],
      (if length out > 0 then data @ [out] else data) @ filter (\<lambda>f. f \<noteq> [])
        (fst (run_codec codec enc' (map (chunk_call nc left right) [Suc k..<chunk_count left]))))"
    using Suc.hyps(2) lt by (intro Suc.hyps(1)) simp_all
  finally show ?case
    by (simp add: up st split: prod.splits)
qed

lemma length_chunk_full: "k + 1 < chunk_count xs \<Longrightarrow> length (chunk xs k) = 1152"
proof -
  assume "k + 1 < chunk_count xs"
  then have "1152 * (k + 1) < length xs" by (simp only: chunk_index_less)
  then show ?thesis by (simp add: chunk_def)
qed

lemma length_chunk_last:
  "0 < chunk_count xs \<Longrightarrow>
   0 < length (chunk xs (chunk_count xs - 1)) \<and> length (chunk xs (chunk_count xs - 1)) \<le> 1152"
proof -
  assume "0 < chunk_count xs"
  then have "chunk_count xs - 1 < chunk_count xs" by simp
  then have "1152 * (chunk_count xs - 1) < length xs" by (simp only: chunk_index_less)
  then show ?thesis by (simp add: chunk_def)
qed

lemma concat_take_chunks:
  "concat (map (chunk xs) [0..<m]) = take (1152 * m) xs"
proof (induction m)
  case 0
  then show ?case by simp
next
  case (Suc m)
  have "take (1152 * Suc m) xs = take (1152 * m + 1152) xs" by (simp add: add.commute)
  also have "\<dots> = take (1152 * m) xs @ take 1152 (drop (1152 * m) xs)" by (rule take_add)
  finally show ?case using Suc by (simp add: chunk_def)
qed

lemma concat_chunks: "concat (map (chunk xs) [0..<chunk_count xs]) = xs"
proof -
  have "\<not> 1152 * chunk_count xs < length xs"
    using chunk_index_less [of "chunk_count xs" xs] by simp
  then show ?thesis by (simp add: concat_take_chunks)
qed

lemma length_deinterleave:
  "length (fst (deinterleave xs)) = length xs div 2 \<and>
   length (snd (deinterleave xs)) = length xs div 2"
  by (induction xs rule: deinterleave.induct) (auto split: prod.splits)

lemma nth_deinterleave:
  "j < length xs div 2 \<Longrightarrow>
   fst (deinterleave xs) ! j = xs ! (2 * j) \<and> snd (deinterleave xs) ! j = xs ! (2 * j + 1)"
proof (induction xs arbitrary: j rule: deinterleave.induct)
  case (1 l r rest)
  show ?case
  proof (cases j)
    case 0
    then show ?thesis by (simp split: prod.splits)
  next
    case (Suc i)
    then have "i < length rest div 2" using "1.prems" by simp
    from "1.IH" [OF this] show ?thesis by (auto simp add: Suc split: prod.splits)
  qed
qed simp_all

lemma chunk_call_not_Flush: "chunk_call nc left right k \<noteq> Flush"
  by (simp add: chunk_call_def)

lemma count_Flush_chunk_calls:
  "count_list (map (chunk_call nc left right) ks) Flush = 0"
  by (induction ks) (simp_all add: chunk_call_not_Flush)

lemma concat_filter_nonempty: "concat (filter (\<lambda>f. f \<noteq> []) fs) = concat fs"
  by (induction fs) simp_all

lemma wavBlobToMp3Blob_conv:
  assumes len: "44 \<le> length blob" and ev: "even (length blob)"
  shows "wavBlobToMp3Blob codec blob =
           Inr (mp3_calls blob,
                filter (\<lambda>f. f \<noteq> [])
                  (fst (run_codec codec
                     (newEncoder codec (wav_numChannels blob) (read_u32 blob 24) 128)
                     (mp3_calls blob))))"
proof -
  define nc where "nc = wav_numChannels blob"
  define left where "left = mp3_left blob"
  define right where "right = mp3_right blob"
  define enc where "enc = newEncoder codec nc (read_u32 blob 24) 128"
  define cs where "cs = map (chunk_call nc left right) [0..<chunk_count left]"
  have g1: "getUint16 blob 22 = Inr nc" using len by (simp add: getUint16_def nc_def wav_numChannels_def)
  have g2: "getUint32 blob 24 = Inr (read_u32 blob 24)" using len by (simp add: getUint32_def)
  have g3: "getUint16 blob 34 = Inr (read_u16 blob 34)" using len by (simp add: getUint16_def)
  have g4: "newInt16Array blob 44 = Inr (wav_samples blob)"
    using len ev by (simp add: newInt16Array_def wav_samples_def)
  have lr: "(if nc = 2 then deinterleave (wav_samples blob) else (wav_samples blob, wav_samples blob))
            = (left, right)"
    by (simp add: left_def right_def mp3_left_def mp3_right_def nc_def)
  have "encode_chunks codec nc left right (1152 * 0) enc [] [] =
        (snd (run_codec codec enc cs), [] @ cs,
         [] @ filter (\<lambda>f. f \<noteq> []) (fst (run_codec codec enc cs)))"
    unfolding cs_def by (rule encode_chunks_run) simp
  then have loop: "encode_chunks codec nc left right 0 enc [] [] =
        (snd (run_codec codec enc cs), cs, filter (\<lambda>f. f \<noteq> []) (fst (run_codec codec enc cs)))"
    by simp
  obtain outs s' where r: "run_codec codec enc cs = (outs, s')"
    by (cases "run_codec codec enc cs")
  obtain tail s'' where fl: "flush codec s' = (tail, s'')"
    by (cases "flush codec s'")
  have run: "run_codec codec enc (cs @ [Flush]) = (outs @ [tail], s'')"
    by (simp add: run_codec_append r codec_step_def fl)
  have "wavBlobToMp3Blob codec blob =
        Inr (cs @ [Flush],
             if length tail > 0 then filter (\<lambda>f. f \<noteq> []) outs @ [tail]
             else filter (\<lambda>f. f \<noteq> []) outs)"
    unfolding wavBlobToMp3Blob_def
    by (simp add: g1 g2 g3 g4 and_then_def lr enc_def [symmetric] loop r fl)
  also have "(if length tail > 0 then filter (\<lambda>f. f \<noteq> []) outs @ [tail]
             else filter (\<lambda>f. f \<noteq> []) outs) = filter (\<lambda>f. f \<noteq> []) (outs @ [tail])"
    by simp
  finally have "wavBlobToMp3Blob codec blob =
      Inr (cs @ [Flush], filter (\<lambda>f. f \<noteq> []) (outs @ [tail]))" .
  then have "wavBlobToMp3Blob codec blob =
      Inr (cs @ [Flush], filter (\<lambda>f. f \<noteq> []) (fst (run_codec codec enc (cs @ [Flush]))))"
    by (simp only: run fst_conv)
  then show ?thesis
    unfolding mp3_calls_def cs_def nc_def left_def right_def enc_def .
qed

text \<open>
  C3.  For every WAV blob the encoder accepts (at least the 44 header bytes, an even
  byte length), the calls made on the codec are one encode call per chunk, in
  increasing chunk order, followed by exactly one flush, which is the last call.
  Chunk \<open>k\<close> holds the samples \<open>1152 * k\<close> onwards of each channel array: every
  chunk but the last has exactly 1152 samples, the last has between 1 and 1152, and
  the chunks together are the whole array.  A stereo blob is split into the samples
  at even positions (left) and at odd positions (right) and encoded with the
  two-channel call; any other blob is encoded with the one-channel call on the
  samples as they are.  The parts of the result are the non-empty fragments the
  codec emitted, in call order, so that the bytes of the blob are the concatenation
  of all fragments with the flush fragment last.
\<close>

theorem wavBlobToMp3Blob_framing:
  assumes len: "44 \<le> length blob" and ev: "even (length blob)"
  shows "wavBlobToMp3Blob codec blob =
           Inr (mp3_calls blob,
                filter (\<lambda>f. f \<noteq> [])
                  (fst (run_codec codec
                     (newEncoder codec (wav_numChannels blob) (read_u32 blob 24) 128)
                     (mp3_calls blob)))) \<and>
         blob_bytes (filter (\<lambda>f. f \<noteq> [])
                  (fst (run_codec codec
                     (newEncoder codec (wav_numChannels blob) (read_u32 blob 24) 128)
                     (mp3_calls blob)))) =
           concat (fst (run_codec codec
                     (newEncoder codec (wav_numChannels blob) (read_u32 blob 24) 128)
                     (mp3_calls blob))) \<and>
         length (mp3_calls blob) = chunk_count (mp3_left blob) + 1 \<and>
         count_list (mp3_calls blob) Flush = 1 \<and> last (mp3_calls blob) = Flush \<and>
         (\<forall>k. k < chunk_count (mp3_left blob) \<longrightarrow>
            mp3_calls blob ! k =
              (if wav_numChannels blob = 2
               then EncodeStereo (chunk (mp3_left blob) k) (chunk (mp3_right blob) k)
               else EncodeMono (chunk (mp3_left blob) k))) \<and>
         (\<forall>k. k + 1 < chunk_count (mp3_left blob) \<longrightarrow>
            length (chunk (mp3_left blob) k) = 1152 \<and> length (chunk (mp3_right blob) k) = 1152) \<and>
         (0 < chunk_count (mp3_left blob) \<longrightarrow>
            0 < length (chunk (mp3_left blob) (chunk_count (mp3_left blob) - 1)) \<and>
            length (chunk (mp3_left blob) (chunk_count (mp3_left blob) - 1)) \<le> 1152) \<and>
         concat (map (chunk (mp3_left blob)) [0..<chunk_count (mp3_left blob)]) = mp3_left blob \<and>
         concat (map (chunk (mp3_right blob)) [0..<chunk_count (mp3_left blob)]) = mp3_right blob \<and>
         (wav_numChannels blob = 2 \<longrightarrow>
            length (mp3_left blob) = length (wav_samples blob) div 2 \<and>
            length (mp3_right blob) = length (wav_samples blob) div 2 \<and>
            (\<forall>j. j < length (wav_samples blob) div 2 \<longrightarrow>
               mp3_left blob ! j = wav_samples blob ! (2 * j) \<and>
               mp3_right blob ! j = wav_samples blob ! (2 * j + 1))) \<and>
         (wav_numChannels blob \<noteq> 2 \<longrightarrow>
            mp3_left blob = wav_samples blob \<and> mp3_right blob = wav_samples blob)"
proof -
  define left where "left = mp3_left blob"
  define right where "right = mp3_right blob"
  define nc where "nc = wav_numChannels blob"
  have lenlr: "length right = length left"
    by (simp add: left_def right_def mp3_left_def mp3_right_def length_deinterleave)
  then have cc: "chunk_count right = chunk_count left" by (simp add: chunk_count_def)
  have calls: "mp3_calls blob = map (chunk_call nc left right) [0..<chunk_count left] @ [Flush]"
    by (simp add: mp3_calls_def left_def right_def nc_def)
  have c1: "length (mp3_calls blob) = chunk_count left + 1" by (simp add: calls)
  have c2: "count_list (mp3_calls blob) Flush = 1"
    by (simp add: calls count_Flush_chunk_calls)
  have c3: "last (mp3_calls blob) = Flush" by (simp add: calls)
  have c4: "mp3_calls blob ! k =
              (if nc = 2 then EncodeStereo (chunk left k) (chunk right k)
               else EncodeMono (chunk left k))" if "k < chunk_count left" for k
    using that by (simp add: calls nth_append chunk_call_def)
  have c5: "length (chunk left k) = 1152 \<and> length (chunk right k) = 1152"
    if "k + 1 < chunk_count left" for k
    using that length_chunk_full [of k left] length_chunk_full [of k right] by (simp add: cc)
  have c6: "0 < chunk_count left \<longrightarrow>
            0 < length (chunk left (chunk_count left - 1)) \<and>
            length (chunk left (chunk_count left - 1)) \<le> 1152"
    using length_chunk_last [of left] by simp
  have c7: "concat (map (chunk left) [0..<chunk_count left]) = left" by (rule concat_chunks)
  have c8: "concat (map (chunk right) [0..<chunk_count left]) = right"
    using concat_chunks [of right] by (simp add: cc)
  have c9: "length left = length (wav_samples blob) div 2 \<and>
            length right = length (wav_samples blob) div 2 \<and>
            (\<forall>j. j < length (wav_samples blob) div 2 \<longrightarrow>
               left ! j = wav_samples blob ! (2 * j) \<and>
               right ! j = wav_samples blob ! (2 * j + 1))" if "nc = 2"
    using that
    by (simp add: left_def right_def mp3_left_def mp3_right_def nc_def length_deinterleave
        nth_deinterleave)
  have c10: "left = wav_samples blob \<and> right = wav_samples blob" if "nc \<noteq> 2"
    using that by (simp add: left_def right_def mp3_left_def mp3_right_def nc_def)
  have c0: "blob_bytes (filter (\<lambda>f. f \<noteq> []) fs) = concat fs" for fs :: "8 word list list"
    by (simp add: blob_bytes_def concat_filter_nonempty)
  show ?thesis
    using wavBlobToMp3Blob_conv [OF len ev, of codec] c0 c1 c2 c3 c4 c5 c6 c7 c8 c9 c10
    unfolding left_def right_def nc_def by blast
qed

lemma mp3_example_shape:
  "44 \<le> length mp3_example" "even (length mp3_example)"
  by (simp_all add: mp3_example_def)

lemma mp3_example_reads:
  "wav_numChannels mp3_example = 2" "wav_samples mp3_example = [1, 2, 3, 4]"
  "read_u32 mp3_example 24 = 44100"
  using header_fields [of 2 44100 4 "[1, 0, 2, 0, 3, 0, 4, 0]"]
  by (simp_all add: mp3_example_def wav_numChannels_def wav_samples_def)

lemma mp3_example_calls: "mp3_calls mp3_example = [EncodeStereo [1, 3] [2, 4], Flush]"
  by (simp add: mp3_calls_def mp3_left_def mp3_right_def mp3_example_reads chunk_count_def
      chunk_call_def chunk_def)

theorem wavBlobToMp3Blob_framing_witness:
  "wavBlobToMp3Blob counting_codec mp3_example =
     Inr ([EncodeStereo [1, 3] [2, 4], Flush], [[2, 2], [255]])"
  using wavBlobToMp3Blob_framing [OF mp3_example_shape, of counting_codec]
  by (simp add: mp3_example_calls mp3_example_reads counting_codec_def codec_step_def)

section \<open>Properties of the renderer\<close>

text \<open>
  The roundings of the duration arithmetic at 125, 288 and -1000 BPM, each computed
  with \<open>round_double_normal\<close> from the binary exponent of the exact result.
\<close>

lemma rd_125_a: "round_double (12 / 25) = Fin (1080863910568919 / 2251799813685248)"
  using round_double_normal [of "- 2" "12 / 25"] by (simp add: powr_minus round_even_def)

lemma rd_125_row: "round_double (1080863910568919 / 9007199254740992) = Fin (1080863910568919 / 9007199254740992)"
  using round_double_normal [of "- 4" "1080863910568919 / 9007199254740992"] by (simp add: powr_minus round_even_def)

lemma rd_125_mul64: "round_double (1080863910568919 / 140737488355328) = Fin (1080863910568919 / 140737488355328)"
  using round_double_normal [of 2 "1080863910568919 / 140737488355328"] by (simp add: powr_minus round_even_def)

lemma rd_125_nat64: "round_double (1221601398924247 / 140737488355328) = Fin (1221601398924247 / 140737488355328)"
  using round_double_normal [of 3 "1221601398924247 / 140737488355328"] by (simp add: powr_minus round_even_def)

lemma rd_125_len64: "round_double (13468155423139823175 / 35184372088832) = Fin (382788)"
  using round_double_normal [of 18 "13468155423139823175 / 35184372088832"] by (simp add: powr_minus round_even_def)

lemma rd_125_nat1: "round_double (10088063165309911 / 9007199254740992) = Fin (1261007895663739 / 1125899906842624)"
  using round_double_normal [of 0 "10088063165309911 / 9007199254740992"] by (simp add: powr_minus round_even_def)

lemma rd_125_len1: "round_double (13902612049692722475 / 281474976710656) = Fin (6788384789889025 / 137438953472)"
  using round_double_normal [of 15 "13902612049692722475 / 281474976710656"] by (simp add: powr_minus round_even_def)

lemma rd_288_a: "round_double (5 / 24) = Fin (7505999378950827 / 36028797018963968)"
  using round_double_normal [of "- 3" "5 / 24"] by (simp add: powr_minus round_even_def)

lemma rd_288_row: "round_double (7505999378950827 / 144115188075855872) = Fin (7505999378950827 / 144115188075855872)"
  using round_double_normal [of "- 5" "7505999378950827 / 144115188075855872"] by (simp add: powr_minus round_even_def)

lemma rd_288_mul64: "round_double (7505999378950827 / 2251799813685248) = Fin (7505999378950827 / 2251799813685248)"
  using round_double_normal [of 1 "7505999378950827 / 2251799813685248"] by (simp add: powr_minus round_even_def)

lemma rd_288_nat64: "round_double (9757799192636075 / 2251799813685248) = Fin (2439449798159019 / 562949953421312)"
  using round_double_normal [of 2 "9757799192636075 / 2251799813685248"] by (simp add: powr_minus round_even_def)

lemma rd_288_len64: "round_double (26894934024703184475 / 140737488355328) = Fin (6566146002124801 / 34359738368)"
  using round_double_normal [of 17 "26894934024703184475 / 140737488355328"] by (simp add: powr_minus round_even_def)







lemma row_duration_125: "row_duration (Fin 125) = Fin (1080863910568919 / 9007199254740992)"
  by (simp add: row_duration_def fl_Fin_simps rd_125_a rd_125_row)

lemma natural_duration_125_64:
  "natural_duration 64 (Fin 125) = Fin (1221601398924247 / 140737488355328)"
  by (simp add: natural_duration_def row_duration_125 fl_Fin_simps rd_125_mul64 rd_125_nat64)

lemma natural_duration_125_1:
  "natural_duration 1 (Fin 125) = Fin (1261007895663739 / 1125899906842624)"
  by (simp add: natural_duration_def row_duration_125 fl_Fin_simps rd_125_row rd_125_nat1)

lemma requested_frames_125_1: "requested_frames 1 (Fin 125) (Fin 180) = Fin (of_int 49393)"
  using natural_duration_125_1 by (simp add: requested_frames_def estimated_seconds_def natural_duration_125_1 fl_Fin_simps
      rd_125_len1)

lemma requested_frames_125_64: "requested_frames 64 (Fin 125) (Fin 180) = Fin (of_int 382788)"
  by (simp add: requested_frames_def estimated_seconds_def natural_duration_125_64 fl_Fin_simps
      rd_125_len64)

lemma row_duration_288: "row_duration (Fin 288) = Fin (7505999378950827 / 144115188075855872)"
  by (simp add: row_duration_def fl_Fin_simps rd_288_a rd_288_row)

lemma requested_frames_288: "requested_frames 64 (Fin 288) (Fin 180) = Fin (of_int 191101)"
  by (simp add: requested_frames_def estimated_seconds_def natural_duration_def row_duration_288
      fl_Fin_simps rd_288_mul64 rd_288_nat64 rd_288_len64)



text \<open>Scheduling succeeds when no note time is negative or overflows.\<close>

lemma check_time_Fin: "0 \<le> r \<Longrightarrow> check_time (Fin r) = Inr r"
  by (simp add: check_time_def)

lemma schedule_note_ok:
  "0 \<le> r \<Longrightarrow> \<exists>v. schedule_note ci (Fin r) = Inr v"
  by (simp add: schedule_note_def check_time_Fin and_then_def)

lemma pow_1023: "(2::real) ^ 1023 = of_int 1 * 2 powr of_int 1023"
proof -
  have "(2::real) powr real (1023::nat) = 2 ^ 1023" by (rule powr_realpow) simp
  moreover have "real (1023::nat) = real_of_int 1023" by simp
  ultimately show ?thesis by (simp only: of_int_1 mult_1)
qed

lemma fl_mul_time:
  assumes d: "0 \<le> d" and b: "real ri * d \<le> 2 ^ 1023"
  shows "\<exists>t. fl_mul (Fin (real ri)) (Fin d) = Fin t \<and> 0 \<le> t"
proof (cases "real ri * d = 0")
  case True
  then have "round_double (real ri * d) = Fin 0" by (simp only: round_double_0)
  then show ?thesis by (simp add: fl_mul_Fin)
next
  case False
  moreover have "0 \<le> real ri * d" using d by simp
  ultimately have pos: "0 < real ri * d" by linarith
  have "(2::real) ^ 1023 < 2 ^ 1024" by (rule power_strict_increasing) simp_all
  then obtain t where "round_double (real ri * d) = Fin t" "0 \<le> t"
    using round_double_le_double [OF pow_1023 _ _ pos b] by auto
  then show ?thesis by (simp add: fl_mul_Fin)
qed

lemma schedule_row_ok:
  "0 \<le> d \<Longrightarrow> real (ri + length chan) * d \<le> 2 ^ 1023 \<Longrightarrow>
   \<exists>vs. schedule_row ci (Fin d) ri chan voices = Inr vs"
proof (induction chan arbitrary: ri voices)
  case Nil
  then show ?case by simp
next
  case (Cons c chan)
  have step: "real (ri + 1 + length chan) * d \<le> 2 ^ 1023" using Cons.prems(2) by simp
  show ?case
  proof (cases "skipped c")
    case True
    then show ?thesis using Cons.IH [OF Cons.prems(1) step] by simp
  next
    case False
    have "real ri \<le> real (ri + length (c # chan))" by simp
    then have "real ri * d \<le> real (ri + length (c # chan)) * d"
      using Cons.prems(1) by (rule mult_right_mono)
    then have "real ri * d \<le> 2 ^ 1023" using Cons.prems(2) by linarith
    then obtain t where t: "fl_mul (Fin (real ri)) (Fin d) = Fin t" "0 \<le> t"
      using fl_mul_time [OF Cons.prems(1)] by blast
    obtain v where "schedule_note ci (Fin t) = Inr v"
      using schedule_note_ok [OF t(2)] by blast
    then show ?thesis using False t(1) Cons.IH [OF Cons.prems(1) step]
      by (simp add: and_then_def)
  qed
qed

lemma schedule_channels_ok:
  "0 \<le> d \<Longrightarrow> list_all (\<lambda>chan. real (length chan) * d \<le> 2 ^ 1023) p \<Longrightarrow>
   \<exists>vs. schedule_channels (Fin d) ci p voices = Inr vs"
proof (induction p arbitrary: ci voices)
  case Nil
  then show ?case by simp
next
  case (Cons chan chans)
  have "real (0 + length chan) * d \<le> 2 ^ 1023" using Cons.prems(2) by simp
  then obtain vs where "schedule_row ci (Fin d) 0 chan voices = Inr vs"
    using schedule_row_ok [OF Cons.prems(1)] by blast
  moreover have "list_all (\<lambda>chan. real (length chan) * d \<le> 2 ^ 1023) chans"
    using Cons.prems(2) by simp
  ultimately show ?case using Cons.IH [OF Cons.prems(1)] by (simp add: and_then_def)
qed

lemma schedule_row_silent:
  "list_all skipped chan \<Longrightarrow> schedule_row ci rowDur ri chan voices = Inr voices"
  by (induction chan arbitrary: ri) simp_all

lemma schedule_channels_silent:
  "silent_pattern p \<Longrightarrow> schedule_channels rowDur ci p voices = Inr voices"
  by (induction p arbitrary: ci) (simp_all add: silent_pattern_def schedule_row_silent and_then_def)

lemma row_duration_nonneg:
  assumes b: "0 < b" and r: "row_duration (Fin b) = Fin d"
  shows "0 \<le> d"
proof -
  have "0 \<le> 60 / b" using b by simp
  then consider "round_double (60 / b) = PosInf"
    | y where "round_double (60 / b) = Fin y" "0 \<le> y"
    using round_double_nonneg by blast
  then show ?thesis
  proof cases
    case 1
    then have "row_duration (Fin b) = PosInf"
      using b by (simp add: row_duration_def fl_div_def)
    then show ?thesis using r by simp
  next
    case 2
    then have rr: "row_duration (Fin b) = round_double (y / 4)"
      using b by (simp add: row_duration_def fl_div_def)
    have "0 \<le> y / 4" using 2 by simp
    then have "round_double (y / 4) = PosInf \<or> (\<exists>z. round_double (y / 4) = Fin z \<and> 0 \<le> z)"
      by (rule round_double_nonneg)
    then show ?thesis using r rr by auto
  qed
qed

lemma js_trunc_of_int: "js_trunc (of_int n) = n"
  by (simp add: js_trunc_def)

lemma newOfflineAudioContext_ok:
  "0 < n \<Longrightarrow> n < 4294967296 \<Longrightarrow>
   newOfflineAudioContext c (Fin (of_int n)) r =
     Inr \<lparr>ctx_channels = c, ctx_length = nat n, ctx_sampleRate = r\<rparr>"
  by (simp add: newOfflineAudioContext_def to_unsigned_long_def js_trunc_of_int Let_def)

lemma startRendering_shape:
  "frames (startRendering engine g) = ctx_length (graph_ctx g)"
  "sampleRate (startRendering engine g) = ctx_sampleRate (graph_ctx g)"
  "numberOfChannels (startRendering engine g) = ctx_channels (graph_ctx g)"
  "valid_buffer (startRendering engine g)"
  by (simp_all add: startRendering_def numberOfChannels_def valid_buffer_def list_all_iff)

lemma startRendering_sample:
  "ch < ctx_channels (graph_ctx g) \<Longrightarrow> i < ctx_length (graph_ctx g) \<Longrightarrow>
   channelData (startRendering engine g) ! ch ! i = engine g ch i"
  by (simp add: startRendering_def)

lemma renderToBuffer_Cons:
  "renderToBuffer engine (chan0 # rest) bpm secs =
     and_then (newOfflineAudioContext 2 (requested_frames (length chan0) bpm secs) 44100)
       (\<lambda>offlineCtx.
          and_then (schedule_channels (row_duration bpm) 0 (chan0 # rest) [])
            (\<lambda>voices.
               Inr (startRendering engine
                     \<lparr>graph_ctx = offlineCtx, master_gain = 9 / 10,
                      graph_voices = voices\<rparr>)))"
  by (simp only: renderToBuffer_def list.case Let_def)

lemma renderToBuffer_ok:
  assumes r: "row_duration bpm = Fin d" and d: "0 \<le> d"
    and ch: "list_all (\<lambda>chan. real (length chan) * d \<le> 2 ^ 1023) (chan0 # rest)"
    and f: "requested_frames (length chan0) bpm secs = Fin (of_int n)"
    and n: "0 < n" "n < 4294967296"
  shows "\<exists>vs. renderToBuffer engine (chan0 # rest) bpm secs =
     Inr (startRendering engine
       \<lparr>graph_ctx = \<lparr>ctx_channels = 2, ctx_length = nat n, ctx_sampleRate = 44100\<rparr>,
        master_gain = 9 / 10, graph_voices = vs\<rparr>)"
proof -
  obtain vs where vs: "schedule_channels (Fin d) 0 (chan0 # rest) [] = Inr vs"
    using schedule_channels_ok [OF d ch] by blast
  show ?thesis
    unfolding renderToBuffer_Cons
    by (rule exI [of _ vs])
       (simp only: f r newOfflineAudioContext_ok [OF n] vs and_then_def sum.case)
qed

lemma renderToBuffer_whole:
  assumes "renderToBuffer engine pattern bpm secs = Inr buf"
  shows "\<exists>ctx vs. buf = startRendering engine
            \<lparr>graph_ctx = ctx, master_gain = 9 / 10, graph_voices = vs\<rparr> \<and>
          ctx_channels ctx = 2 \<and> ctx_sampleRate ctx = 44100 \<and> 0 < ctx_length ctx"
proof (cases pattern)
  case Nil
  then show ?thesis using assms by (simp add: renderToBuffer_def)
next
  case (Cons chan0 rest)
  from assms obtain ctx where
    c: "newOfflineAudioContext 2 (requested_frames (length chan0) bpm secs) 44100 = Inr ctx"
    and r: "and_then (schedule_channels (row_duration bpm) 0 pattern [])
               (\<lambda>voices. Inr (startRendering engine
                        \<lparr>graph_ctx = ctx, master_gain = 9 / 10, graph_voices = voices\<rparr>)) = Inr buf"
    unfolding renderToBuffer_def Cons
    by (auto simp add: Let_def and_then_def split: sum.splits)
  from r obtain vs where
    b: "buf = startRendering engine \<lparr>graph_ctx = ctx, master_gain = 9 / 10, graph_voices = vs\<rparr>"
    by (auto simp add: and_then_def split: sum.splits)
  have "ctx_channels ctx = 2 \<and> ctx_sampleRate ctx = 44100 \<and> 0 < ctx_length ctx"
    using c by (auto simp add: newOfflineAudioContext_def Let_def split: if_splits)
  then show ?thesis using b by blast
qed

lemma renderToBuffer_frames:
  assumes "renderToBuffer engine (chan0 # rest) bpm secs = Inr buf"
  shows "frames buf = to_unsigned_long (requested_frames (length chan0) bpm secs) \<and>
         0 < frames buf \<and> numberOfChannels buf = 2 \<and>
         list_all (\<lambda>d. length d = frames buf) (channelData buf)"
proof -
  from assms obtain ctx where
    c: "newOfflineAudioContext 2 (requested_frames (length chan0) bpm secs) 44100 = Inr ctx"
    and r: "and_then (schedule_channels (row_duration bpm) 0 (chan0 # rest) [])
               (\<lambda>voices. Inr (startRendering engine
                        \<lparr>graph_ctx = ctx, master_gain = 9 / 10, graph_voices = voices\<rparr>)) = Inr buf"
    unfolding renderToBuffer_Cons
    by (auto simp add: and_then_def split: sum.splits)
  from r obtain vs where
    b: "buf = startRendering engine \<lparr>graph_ctx = ctx, master_gain = 9 / 10, graph_voices = vs\<rparr>"
    by (auto simp add: and_then_def split: sum.splits)
  have "ctx_channels ctx = 2 \<and> 0 < ctx_length ctx \<and>
        ctx_length ctx = to_unsigned_long (requested_frames (length chan0) bpm secs)"
    using c by (auto simp add: newOfflineAudioContext_def Let_def split: if_splits)
  then show ?thesis
    using startRendering_shape(4) [of engine
        "\<lparr>graph_ctx = ctx, master_gain = 9 / 10, graph_voices = vs\<rparr>"]
    unfolding b by (simp add: startRendering_shape valid_buffer_def)
qed

lemma renderToBuffer_silent:
  assumes "silent_pattern (chan0 # rest)"
  shows "renderToBuffer engine (chan0 # rest) bpm secs =
     and_then (newOfflineAudioContext 2 (requested_frames (length chan0) bpm secs) 44100)
       (\<lambda>ctx. Inr (startRendering engine
                  \<lparr>graph_ctx = ctx, master_gain = 9 / 10, graph_voices = []\<rparr>))"
  unfolding renderToBuffer_def
  by (simp only: list.case Let_def schedule_channels_silent [OF assms] and_then_def sum.case)

lemma render_silent_frames:
  assumes s: "silent_pattern (chan0 # rest)"
    and f: "requested_frames (length chan0) bpm secs = Fin (of_int n)"
    and n: "0 < n" "n < 4294967296"
  shows "rendered_frames (renderToBuffer engine (chan0 # rest) bpm secs) = Some (nat n)"
  unfolding renderToBuffer_silent [OF s] f newOfflineAudioContext_ok [OF n]
  by (simp add: and_then_def rendered_frames_def startRendering_shape)




lemma makePattern_Cons:
  "makePattern = replicate 64 (Some silent_cell) # replicate 7 (replicate 64 (Some silent_cell))"
  by (simp add: makePattern_def numeral_eq_Suc)

lemma makePattern_silent: "silent_pattern makePattern"
  by (simp add: silent_pattern_def makePattern_def list_all_iff skipped_def silent_cell_def)

lemma rd_tenth_len:
  "round_double (39721748713407776925 / 9007199254740992) = Fin 4410"
  using round_double_normal [of 12 "39721748713407776925 / 9007199254740992"]
  by (simp add: powr_minus round_even_def)

lemma requested_frames_below_natural:
  assumes "js_lt (Fin limit) (natural_duration rows bpm)"
  shows "requested_frames rows bpm (Fin limit) = js_ceil (round_double (44100 * limit))"
  using assms
  by (cases "natural_duration rows bpm")
     (simp_all add: requested_frames_def estimated_seconds_def fl_mul_Fin min_def)

lemma frames_below_2_32:
  assumes y: "round_double (44100 * limit) = Fin y" and pos: "0 < \<lceil>y\<rceil>"
    and lim: "limit \<le> 16"
  shows "\<lceil>y\<rceil> < 4294967296"
proof -
  have ypos: "0 < y" using pos by (simp add: less_ceiling_iff)
  have xpos: "0 < 44100 * limit"
  proof (rule ccontr)
    assume "\<not> 0 < 44100 * limit"
    then have "44100 * limit \<le> 0" by simp
    then have "round_double (44100 * limit) = NegInf \<or>
               (\<exists>z. round_double (44100 * limit) = Fin z \<and> z \<le> 0)"
      by (rule round_double_nonpos)
    then show False using y ypos by auto
  qed
  define h :: real where "h = of_int 1 * 2 powr of_int 20"
  have hv: "h = 1048576" by (simp add: h_def)
  have xh: "44100 * limit \<le> h" using lim unfolding hv by simp
  have "h < 2 ^ 21" unfolding hv by simp
  also have "\<dots> < (2::real) ^ 1024" by (rule power_strict_increasing) simp_all
  finally have hfin: "h < 2 ^ 1024" .
  obtain z where "round_double (44100 * limit) = Fin z" "z \<le> h"
    using round_double_le_double [OF h_def _ _ xpos xh hfin] by auto
  then have "y \<le> 1048576" using y hv by simp
  then have "\<lceil>y\<rceil> \<le> 1048576" by (simp add: ceiling_le_iff)
  then show ?thesis by simp
qed

text \<open>
  C1 (as amended).  For every step count, tempo and \<open>secondsLimit\<close>, the length
  the renderer asks of the audio context is \<open>ceil (44100 * min (secondsLimit,
  steps * ((60 / bpm) / 4) + 1))\<close> with every operation rounded to a double, and
  every buffer it returns has two channels of exactly that many samples (reduced
  modulo \<open>2^32\<close>), at least one.  For a tempo \<open>bpm > 0\<close> it returns a buffer
  whenever the row duration is finite, no note time can overflow, and the length
  asked is a whole number from 1 to \<open>2^32 - 1\<close>.  In particular a pattern of 64-step
  channels at 125 BPM with \<open>secondsLimit\<close> below the natural duration gives a
  buffer of \<open>ceil (44100 * secondsLimit)\<close> frames, the product rounded to a
  double, whenever that count is positive; no channel holds a sample more.
\<close>

theorem renderToBuffer_buffer_length:
  "requested_frames rows bpm secs =
     js_ceil (fl_mul (Fin 44100)
       (js_min secs
          (fl_add (fl_mul (Fin (real rows)) (fl_div (fl_div (Fin 60) bpm) (Fin 4))) (Fin 1)))) \<and>
   (\<forall>engine chan0 rest buf.
      renderToBuffer engine (chan0 # rest) bpm secs = Inr buf \<longrightarrow>
      frames buf = to_unsigned_long (requested_frames (length chan0) bpm secs) \<and>
      0 < frames buf \<and> numberOfChannels buf = 2 \<and>
      list_all (\<lambda>d. length d = frames buf) (channelData buf)) \<and>
   (\<forall>engine chan0 rest b d n.
      bpm = Fin b \<and> 0 < b \<and> row_duration bpm = Fin d \<and>
      list_all (\<lambda>chan. real (length chan) * d \<le> 2 ^ 1023) (chan0 # rest) \<and>
      requested_frames (length chan0) bpm secs = Fin (of_int n) \<and> 0 < n \<and> n < 4294967296 \<longrightarrow>
      (\<exists>buf. renderToBuffer engine (chan0 # rest) bpm secs = Inr buf \<and> frames buf = nat n \<and>
             numberOfChannels buf = 2 \<and>
             list_all (\<lambda>d. length d = nat n) (channelData buf))) \<and>
   (\<forall>engine chan0 rest limit y.
      list_all (\<lambda>chan. length chan = 64) (chan0 # rest) \<and>
      js_lt (Fin limit) (natural_duration 64 (Fin 125)) \<and>
      round_double (44100 * limit) = Fin y \<and> 0 < \<lceil>y\<rceil> \<longrightarrow>
      (\<exists>buf. renderToBuffer engine (chan0 # rest) (Fin 125) (Fin limit) = Inr buf \<and>
             frames buf = nat \<lceil>y\<rceil> \<and> numberOfChannels buf = 2 \<and>
             list_all (\<lambda>d. length d = nat \<lceil>y\<rceil>) (channelData buf)))"
proof -
  have shape: "\<exists>buf. renderToBuffer engine (chan0 # rest) tempo s = Inr buf \<and> frames buf = nat n \<and>
             numberOfChannels buf = 2 \<and> list_all (\<lambda>d. length d = nat n) (channelData buf)"
    if r: "row_duration tempo = Fin d" and d: "0 \<le> d"
      and ch: "list_all (\<lambda>chan. real (length chan) * d \<le> 2 ^ 1023) (chan0 # rest)"
      and f: "requested_frames (length chan0) tempo s = Fin (of_int n)"
      and n: "0 < n" "n < 4294967296"
    for engine chan0 rest tempo s d n
  proof -
    obtain vs where v: "renderToBuffer engine (chan0 # rest) tempo s =
       Inr (startRendering engine
         \<lparr>graph_ctx = \<lparr>ctx_channels = 2, ctx_length = nat n, ctx_sampleRate = 44100\<rparr>,
          master_gain = 9 / 10, graph_voices = vs\<rparr>)"
      using renderToBuffer_ok [OF r d ch f n] by blast
    show ?thesis
      using startRendering_shape(4) [of engine
          "\<lparr>graph_ctx = \<lparr>ctx_channels = 2, ctx_length = nat n, ctx_sampleRate = 44100\<rparr>,
            master_gain = 9 / 10, graph_voices = vs\<rparr>"]
      by (simp add: v startRendering_shape valid_buffer_def)
  qed
  have p1: "requested_frames rows bpm secs =
     js_ceil (fl_mul (Fin 44100)
       (js_min secs
          (fl_add (fl_mul (Fin (real rows)) (fl_div (fl_div (Fin 60) bpm) (Fin 4))) (Fin 1))))"
    by (simp add: requested_frames_def estimated_seconds_def natural_duration_def row_duration_def)
  have p2: "\<forall>engine chan0 rest buf.
      renderToBuffer engine (chan0 # rest) bpm secs = Inr buf \<longrightarrow>
      frames buf = to_unsigned_long (requested_frames (length chan0) bpm secs) \<and>
      0 < frames buf \<and> numberOfChannels buf = 2 \<and>
      list_all (\<lambda>d. length d = frames buf) (channelData buf)"
    using renderToBuffer_frames by blast
  have p3: "\<forall>engine chan0 rest b d n.
      bpm = Fin b \<and> 0 < b \<and> row_duration bpm = Fin d \<and>
      list_all (\<lambda>chan. real (length chan) * d \<le> 2 ^ 1023) (chan0 # rest) \<and>
      requested_frames (length chan0) bpm secs = Fin (of_int n) \<and> 0 < n \<and> n < 4294967296 \<longrightarrow>
      (\<exists>buf. renderToBuffer engine (chan0 # rest) bpm secs = Inr buf \<and> frames buf = nat n \<and>
             numberOfChannels buf = 2 \<and>
             list_all (\<lambda>d. length d = nat n) (channelData buf))"
  proof (intro allI impI)
    fix engine :: render_engine and chan0 :: "cell option list" and rest :: pattern
      and b d :: real and n :: int
    assume a: "bpm = Fin b \<and> 0 < b \<and> row_duration bpm = Fin d \<and>
      list_all (\<lambda>chan. real (length chan) * d \<le> 2 ^ 1023) (chan0 # rest) \<and>
      requested_frames (length chan0) bpm secs = Fin (of_int n) \<and> 0 < n \<and> n < 4294967296"
    then have "0 \<le> d" using row_duration_nonneg [of b d] by auto
    then show "\<exists>buf. renderToBuffer engine (chan0 # rest) bpm secs = Inr buf \<and> frames buf = nat n \<and>
             numberOfChannels buf = 2 \<and>
             list_all (\<lambda>d. length d = nat n) (channelData buf)"
      using a by (intro shape [of bpm d]) blast+
  qed
  have p4: "\<forall>engine chan0 rest limit y.
      list_all (\<lambda>chan. length chan = 64) (chan0 # rest) \<and>
      js_lt (Fin limit) (natural_duration 64 (Fin 125)) \<and>
      round_double (44100 * limit) = Fin y \<and> 0 < \<lceil>y\<rceil> \<longrightarrow>
      (\<exists>buf. renderToBuffer engine (chan0 # rest) (Fin 125) (Fin limit) = Inr buf \<and>
             frames buf = nat \<lceil>y\<rceil> \<and> numberOfChannels buf = 2 \<and>
             list_all (\<lambda>d. length d = nat \<lceil>y\<rceil>) (channelData buf))"
  proof (intro allI impI)
    fix engine :: render_engine and chan0 :: "cell option list" and rest :: pattern
      and limit y :: real
    assume a: "list_all (\<lambda>chan. length chan = 64) (chan0 # rest) \<and>
      js_lt (Fin limit) (natural_duration 64 (Fin 125)) \<and>
      round_double (44100 * limit) = Fin y \<and> 0 < \<lceil>y\<rceil>"
    then have l: "length chan0 = 64" by simp
    have lt: "js_lt (Fin limit) (natural_duration 64 (Fin 125))" using a by blast
    then have "limit \<le> 16" by (simp add: natural_duration_125_64)
    then have up: "\<lceil>y\<rceil> < 4294967296" using a frames_below_2_32 by blast
    have f: "requested_frames (length chan0) (Fin 125) (Fin limit) = Fin (of_int \<lceil>y\<rceil>)"
      unfolding l requested_frames_below_natural [OF lt] using a by simp
    have "list_all (\<lambda>chan. real (length chan) * (1080863910568919 / 9007199254740992) \<le> 8)
            (chan0 # rest)"
      using a by (auto simp: list_all_iff)
    moreover have "(8::real) \<le> 2 ^ 1023"
    proof -
      have "(2::real) ^ 3 \<le> 2 ^ 1023" by (rule power_increasing) simp_all
      then show ?thesis by simp
    qed
    ultimately have ch: "list_all (\<lambda>chan. real (length chan) *
              (1080863910568919 / 9007199254740992) \<le> 2 ^ 1023) (chan0 # rest)"
      by (auto simp: list_all_iff intro: order_trans)
    show "\<exists>buf. renderToBuffer engine (chan0 # rest) (Fin 125) (Fin limit) = Inr buf \<and>
             frames buf = nat \<lceil>y\<rceil> \<and> numberOfChannels buf = 2 \<and>
             list_all (\<lambda>d. length d = nat \<lceil>y\<rceil>) (channelData buf)"
      using a up by (intro shape [OF row_duration_125 _ ch f]) simp_all
  qed
  show ?thesis by (intro conjI) (rule p1, rule p2, rule p3, rule p4)
qed

theorem renderToBuffer_buffer_length_witness:
  "rendered_frames (renderToBuffer additive_mix makePattern (Fin 125) (Fin 5)) = Some 220500 \<and>
   rendered_frames (renderToBuffer additive_mix makePattern (Fin 125)
      (Fin (3602879701896397 / 36028797018963968))) = Some 4410"
proof -
  have p: "list_all (\<lambda>chan. length chan = 64)
            (replicate 64 (Some silent_cell) # replicate 7 (replicate 64 (Some silent_cell)))"
    by (simp add: list_all_iff)
  have "js_lt (Fin 5) (natural_duration 64 (Fin 125)) \<and>
        round_double (44100 * 5) = Fin 220500 \<and> 0 < \<lceil>220500::real\<rceil>"
    by (simp add: natural_duration_125_64)
  with p renderToBuffer_buffer_length [of 64 "Fin 125" "Fin 5"]
  have "\<exists>buf. renderToBuffer additive_mix
                 (replicate 64 (Some silent_cell) # replicate 7 (replicate 64 (Some silent_cell)))
                 (Fin 125) (Fin 5) = Inr buf \<and>
              frames buf = nat \<lceil>220500::real\<rceil>"
    by blast
  then have a: "rendered_frames (renderToBuffer additive_mix makePattern (Fin 125) (Fin 5)) =
                Some 220500"
    by (auto simp add: makePattern_Cons rendered_frames_def)
  have "js_lt (Fin (3602879701896397 / 36028797018963968)) (natural_duration 64 (Fin 125)) \<and>
        round_double (44100 * (3602879701896397 / 36028797018963968)) = Fin 4410 \<and>
        0 < \<lceil>4410::real\<rceil>"
    using rd_tenth_len by (simp add: natural_duration_125_64)
  with p renderToBuffer_buffer_length [of 64 "Fin 125" "Fin 5"]
  have "\<exists>buf. renderToBuffer additive_mix
                 (replicate 64 (Some silent_cell) # replicate 7 (replicate 64 (Some silent_cell)))
                 (Fin 125) (Fin (3602879701896397 / 36028797018963968)) = Inr buf \<and>
              frames buf = nat \<lceil>4410::real\<rceil>"
    by blast
  then have b: "rendered_frames (renderToBuffer additive_mix makePattern (Fin 125)
      (Fin (3602879701896397 / 36028797018963968))) = Some 4410"
    by (auto simp add: makePattern_Cons rendered_frames_def)
  show ?thesis using a b by blast
qed

lemma makePattern_frames:
  assumes f: "requested_frames 64 bpm secs = Fin (of_int n)" and n: "0 < n" "n < 4294967296"
  shows "rendered_frames (renderToBuffer engine makePattern bpm secs) = Some (nat n)"
proof -
  have s: "silent_pattern (replicate 64 (Some silent_cell) #
             replicate 7 (replicate 64 (Some silent_cell)))"
    using makePattern_silent by (simp add: makePattern_Cons)
  have f': "requested_frames (length (replicate 64 (Some silent_cell))) bpm secs = Fin (of_int n)"
    using f by simp
  show ?thesis unfolding makePattern_Cons by (rule render_silent_frames [OF s f' n])
qed

text \<open>
  C1 as the specification states it fails.  With a \<open>secondsLimit\<close> of 0 the length
  is 0 and the audio context throws: no buffer is allocated.  A pattern without
  channels makes the renderer throw before any arithmetic.  And the empty 8 by 64
  grid at 288 BPM renders 191101 frames, one more than the formula of the
  specification gives on the real numbers, 191100: the natural duration, 13/3
  seconds, is not a double, and the one the program computes is a little above it.
\<close>

theorem renderToBuffer_length_differs_from_formula:
  "renderToBuffer additive_mix makePattern (Fin 125) (Fin 0) = Inl NotSupportedError \<and>
   renderToBuffer additive_mix [] (Fin 125) (Fin 180) = Inl TypeError \<and>
   rendered_frames (renderToBuffer additive_mix makePattern (Fin 288) (Fin 180)) = Some 191101 \<and>
   spec_buffer_length 64 288 180 = 191100"
proof -
  have "requested_frames 64 (Fin 125) (Fin 0) = Fin 0"
    by (simp add: requested_frames_def estimated_seconds_def natural_duration_125_64 fl_mul_Fin)
  then have a: "renderToBuffer additive_mix makePattern (Fin 125) (Fin 0) = Inl NotSupportedError"
    unfolding makePattern_Cons renderToBuffer_Cons
    by (simp add: newOfflineAudioContext_def to_unsigned_long_def and_then_def)
  have b: "renderToBuffer additive_mix [] (Fin 125) (Fin 180) = Inl TypeError"
    by (simp add: renderToBuffer_def)
  have c: "rendered_frames (renderToBuffer additive_mix makePattern (Fin 288) (Fin 180)) =
           Some (nat 191101)"
    by (rule makePattern_frames [OF requested_frames_288]) simp_all
  have d: "spec_buffer_length 64 288 180 = 191100"
    by (simp add: spec_buffer_length_def)
  show ?thesis using a b c d by simp
qed




lemma schedule_note_zero: "schedule_note ci (Fin 0) = Inr (dense_voice ci)"
  by (simp add: schedule_note_def check_time_def and_then_def dense_voice_def)

lemma schedule_row_dense:
  "schedule_row ci (Fin d) 0 [Some note_cell] voices = Inr (voices @ [dense_voice ci])"
  by (simp add: skipped_def note_cell_def fl_mul_Fin schedule_note_zero and_then_def)

lemma schedule_channels_dense:
  "schedule_channels (Fin d) ci (replicate n [Some note_cell]) voices =
     Inr (voices @ map dense_voice [ci..<ci + n])"
proof (induction n arbitrary: ci voices)
  case 0
  then show ?case by simp
next
  case (Suc n)
  have "schedule_channels (Fin d) ci (replicate (Suc n) [Some note_cell]) voices =
        and_then (schedule_row ci (Fin d) 0 [Some note_cell] voices)
          (\<lambda>voices. schedule_channels (Fin d) (ci + 1) (replicate n [Some note_cell]) voices)"
    by (simp only: replicate_Suc schedule_channels.simps)
  also have "\<dots> = schedule_channels (Fin d) (ci + 1) (replicate n [Some note_cell])
                    (voices @ [dense_voice ci])"
    by (simp only: schedule_row_dense and_then_def sum.case)
  also have "\<dots> = Inr ((voices @ [dense_voice ci]) @ map dense_voice [ci + 1..<ci + 1 + n])"
    by (rule Suc)
  also have "(voices @ [dense_voice ci]) @ map dense_voice [ci + 1..<ci + 1 + n] =
             voices @ map dense_voice [ci..<ci + Suc n]"
  proof -
    have "[ci..<ci + Suc n] = ci # [ci + 1..<ci + 1 + n]"
      using upt_conv_Cons [of ci "ci + Suc n"] by (simp del: upt_Suc)
    then show ?thesis by (simp del: upt_Suc)
  qed
  finally show ?case .
qed

lemma dense_pattern_Cons: "dense_pattern = [Some note_cell] # replicate 29 [Some note_cell]"
  by (simp add: dense_pattern_def numeral_eq_Suc)

lemma render_dense:
  "renderToBuffer additive_mix dense_pattern (Fin 125) (Fin 180) =
     Inr (startRendering additive_mix dense_graph)"
proof -
  have f: "requested_frames (length [Some note_cell]) (Fin 125) (Fin 180) = Fin (of_int 49393)"
    using requested_frames_125_1 by simp
  have c: "newOfflineAudioContext 2 (Fin (of_int 49393)) 44100 =
           Inr \<lparr>ctx_channels = 2, ctx_length = nat 49393, ctx_sampleRate = 44100\<rparr>"
    by (rule newOfflineAudioContext_ok) simp_all
  have s: "schedule_channels (row_duration (Fin 125)) 0 dense_pattern [] =
           Inr (map dense_voice [0..<30])"
    using schedule_channels_dense [of "1080863910568919 / 9007199254740992" 0 30 "[]"]
    by (simp add: row_duration_125 dense_pattern_def)
  have n: "nat 49393 = 49393" by simp
  show ?thesis
    unfolding dense_pattern_Cons renderToBuffer_Cons
    unfolding dense_pattern_Cons [symmetric] f c s and_then_def sum.case dense_graph_def n ..
qed

lemma floor_shift: "\<lfloor>(125 + real k * 30) / 30\<rfloor> = int k + 4"
  by (simp add: floor_eq_iff field_simps)

lemma dense_voice_sample: "voice_sample (dense_voice k) (1 / 30) = - 27 / 550"
  by (simp add: voice_sample_def dense_voice_def sawtooth_def field_simps floor_shift)

lemma dense_sample:
  "additive_mix dense_graph ch 1470 = Fin (- 729 / 550)"
proof -
  have "map (\<lambda>v. voice_sample v (1 / 30)) (map dense_voice [0..<30]) = replicate 30 (- 27 / 550)"
    by (simp add: dense_voice_sample comp_def map_replicate_const)
  then show ?thesis
    by (simp add: additive_mix_def dense_graph_def sum_list_replicate del: map_map)
qed

lemma sample_to_pcm_clamped:
  "to_integer (sample_to_pcm (Fin x)) = to_integer (sample_to_pcm (Fin (max (- 1) (min 1 x))))"
proof -
  have "max (- 1) (min 1 (max (- 1) (min 1 x))) = max (- 1) (min 1 x)" by simp
  then show ?thesis by (simp only: sample_to_pcm_Fin)
qed

lemma sample_to_pcm_high: "1 \<le> x \<Longrightarrow> to_integer (sample_to_pcm (Fin x)) = 32767"
proof -
  assume "1 \<le> x"
  then have "max (- 1) (min 1 x) = 1" by simp
  then show ?thesis by (simp add: sample_to_pcm_Fin_if to_integer_def js_trunc_def)
qed

lemma sample_to_pcm_low: "x \<le> - 1 \<Longrightarrow> to_integer (sample_to_pcm (Fin x)) = - 32768"
proof -
  assume "x \<le> - 1"
  then have "max (- 1) (min 1 x) = - 1" by simp
  then show ?thesis by (simp add: sample_to_pcm_Fin_if to_integer_def js_trunc_def)
qed

text \<open>
  C6 (as amended).  The renderer returns the samples of the audio context as they
  are, with no clamp of its own: every sample of a returned buffer is the sample
  the engine computed for the scheduled graph.  The clamp is in the WAV encoder:
  a sample is encoded as its clamped value is, so every encoded sample lies between
  -32768 and 32767, a sample of 1 or more gives 32767 and a sample of -1 or less
  gives -32768.
\<close>

theorem renderToBuffer_returns_engine_samples:
  "(\<forall>engine pattern bpm secs buf.
      renderToBuffer engine pattern bpm secs = Inr buf \<longrightarrow>
      (\<exists>ctx vs.
         buf = startRendering engine
                 \<lparr>graph_ctx = ctx, master_gain = 9 / 10, graph_voices = vs\<rparr> \<and>
         (\<forall>ch i. ch < numberOfChannels buf \<and> i < frames buf \<longrightarrow>
            channelData buf ! ch ! i =
              engine \<lparr>graph_ctx = ctx, master_gain = 9 / 10, graph_voices = vs\<rparr> ch i))) \<and>
   (\<forall>x. - 32768 \<le> to_integer (sample_to_pcm x) \<and> to_integer (sample_to_pcm x) \<le> 32767) \<and>
   (\<forall>x. to_integer (sample_to_pcm (Fin x)) =
         to_integer (sample_to_pcm (Fin (max (- 1) (min 1 x))))) \<and>
   (\<forall>x. 1 \<le> x \<longrightarrow> to_integer (sample_to_pcm (Fin x)) = 32767) \<and>
   (\<forall>x. x \<le> - 1 \<longrightarrow> to_integer (sample_to_pcm (Fin x)) = - 32768)"
proof -
  have c1: "\<exists>ctx vs.
         buf = startRendering engine
                 \<lparr>graph_ctx = ctx, master_gain = 9 / 10, graph_voices = vs\<rparr> \<and>
         (\<forall>ch i. ch < numberOfChannels buf \<and> i < frames buf \<longrightarrow>
            channelData buf ! ch ! i =
              engine \<lparr>graph_ctx = ctx, master_gain = 9 / 10, graph_voices = vs\<rparr> ch i)"
    if r: "renderToBuffer engine pattern bpm secs = Inr buf"
    for engine :: render_engine and pattern :: pattern and bpm secs buf
  proof -
    from renderToBuffer_whole [OF r] obtain ctx vs where
      b: "buf = startRendering engine
                  \<lparr>graph_ctx = ctx, master_gain = 9 / 10, graph_voices = vs\<rparr>"
      by blast
    have "channelData buf ! ch ! i =
            engine \<lparr>graph_ctx = ctx, master_gain = 9 / 10, graph_voices = vs\<rparr> ch i"
      if "ch < numberOfChannels buf \<and> i < frames buf" for ch i
      using that unfolding b by (intro startRendering_sample) (simp_all add: startRendering_shape)
    then show ?thesis using b by blast
  qed
  have c2: "- 32768 \<le> to_integer (sample_to_pcm x) \<and> to_integer (sample_to_pcm x) \<le> 32767"
    for x
    using sample_to_pcm_range [of x] by simp
  show ?thesis
    using c1 c2 sample_to_pcm_clamped sample_to_pcm_high sample_to_pcm_low by blast
qed

theorem renderToBuffer_returns_engine_samples_witness:
  "rendered_sample (renderToBuffer additive_mix dense_pattern (Fin 125) (Fin 180)) 1 0 =
     Some (additive_mix dense_graph 1 0) \<and>
   to_integer (sample_to_pcm (Fin 2)) = 32767 \<and>
   to_integer (sample_to_pcm (Fin (- 3 / 2))) = - 32768"
proof -
  define buf where "buf = startRendering additive_mix dense_graph"
  have r: "renderToBuffer additive_mix dense_pattern (Fin 125) (Fin 180) = Inr buf"
    unfolding buf_def by (rule render_dense)
  with renderToBuffer_returns_engine_samples obtain ctx vs where
    b: "buf = startRendering additive_mix
              \<lparr>graph_ctx = ctx, master_gain = 9 / 10, graph_voices = vs\<rparr>"
    and s: "\<And>ch i. ch < numberOfChannels buf \<and> i < frames buf \<longrightarrow>
            channelData buf ! ch ! i =
              additive_mix \<lparr>graph_ctx = ctx, master_gain = 9 / 10, graph_voices = vs\<rparr> ch i"
    by blast
  have shape: "numberOfChannels buf = 2" "frames buf = 49393"
    by (simp_all add: buf_def startRendering_shape dense_graph_def)
  have "channelData buf ! 1 ! 0 = additive_mix dense_graph 1 0"
    unfolding buf_def by (rule startRendering_sample) (simp_all add: dense_graph_def)
  then have "rendered_sample (renderToBuffer additive_mix dense_pattern (Fin 125) (Fin 180)) 1 0 =
     Some (additive_mix dense_graph 1 0)"
    by (simp add: r rendered_sample_def)
  moreover have "to_integer (sample_to_pcm (Fin 2)) = 32767"
    using renderToBuffer_returns_engine_samples by simp
  moreover have "to_integer (sample_to_pcm (Fin (- 3 / 2))) = - 32768"
    using renderToBuffer_returns_engine_samples by simp
  ultimately show ?thesis by blast
qed

text \<open>
  C6 as the specification states it fails.  Thirty channels with a note in the same
  row are thirty sawtooth voices at 110, 140, ... Hz; one thirtieth of a second after
  the onset (frame 1470) all of them are at phase 2/3, where the envelope is 81/1100,
  and their sum scaled by the master gain is -729/550, below -1: the sample is in
  the returned buffer unclamped.
\<close>

theorem renderToBuffer_sample_outside_range:
  "rendered_sample (renderToBuffer additive_mix dense_pattern (Fin 125) (Fin 180)) 0 1470 =
     Some (Fin (- 729 / 550)) \<and> (- 729 / 550 :: real) < - 1"
proof -
  have "channelData (startRendering additive_mix dense_graph) ! 0 ! 1470 =
        additive_mix dense_graph 0 1470"
    by (rule startRendering_sample) (simp_all add: dense_graph_def)
  then show ?thesis
    by (simp add: render_dense rendered_sample_def dense_sample)
qed

end
